theory Spec2Isabelle
  imports Main
begin

section \<open>Python values and failures\<close>

text \<open>
  The engine is the class \<open>Model\<close> of \<open>game_of_life.py\<close>. Its integers are Python's
  unbounded ones (\<open>int\<close>), its grid is a list of rows, each a list of integers. The
  only ways the engine's own code can raise are an index outside a list and a modulo by
  zero; both are results of the model.
\<close>

datatype error = IndexError | ZeroDivisionError

definition rbind :: "error + 'a \<Rightarrow> ('a \<Rightarrow> error + 'b) \<Rightarrow> error + 'b" where
  "rbind r f = (case r of Inl e \<Rightarrow> Inl e | Inr x \<Rightarrow> f x)"

text \<open>\<open>for x in xs: s = body x s\<close>, leaving the loop at the first exception.\<close>

fun for_each :: "('a \<Rightarrow> 's \<Rightarrow> error + 's) \<Rightarrow> 'a list \<Rightarrow> 's \<Rightarrow> error + 's" where
  "for_each body [] s = Inr s"
| "for_each body (x # xs) s = rbind (body x s) (for_each body xs)"

text \<open>\<open>range(n)\<close>, \<open>range(a, b)\<close> and \<open>range(a, b, -1)\<close>.\<close>

definition py_range :: "int \<Rightarrow> int list" where
  "py_range n = map int [0..<nat n]"

definition py_range_from :: "int \<Rightarrow> int \<Rightarrow> int list" where
  "py_range_from a b = map (\<lambda>k. a + int k) [0..<nat (b - a)]"

definition py_range_down :: "int \<Rightarrow> int \<Rightarrow> int list" where
  "py_range_down a b = map (\<lambda>k. a - int k) [0..<nat (a - b)]"

text \<open>\<open>xs[i]\<close>: an index below zero counts from the end; anything else outside raises.\<close>

definition py_pos :: "'a list \<Rightarrow> int \<Rightarrow> error + nat" where
  "py_pos xs i =
     (if 0 \<le> i \<and> i < int (length xs) then Inr (nat i)
      else if i < 0 \<and> - int (length xs) \<le> i then Inr (nat (int (length xs) + i))
      else Inl IndexError)"

definition py_index :: "'a list \<Rightarrow> int \<Rightarrow> error + 'a" where
  "py_index xs i = rbind (py_pos xs i) (\<lambda>k. Inr (xs ! k))"

text \<open>\<open>xs[i] = v\<close>.\<close>

definition py_store :: "'a list \<Rightarrow> int \<Rightarrow> 'a \<Rightarrow> error + 'a list" where
  "py_store xs i v = rbind (py_pos xs i) (\<lambda>k. Inr (xs[k := v]))"

text \<open>\<open>xs[:n]\<close>: a negative bound counts from the end, and a slice never raises.\<close>

definition py_take :: "int \<Rightarrow> 'a list \<Rightarrow> 'a list" where
  "py_take n xs = (if 0 \<le> n then take (nat n) xs else take (nat (int (length xs) + n)) xs)"

text \<open>\<open>a % b\<close>: the result has the sign of the divisor, as \<open>mod\<close> on \<open>int\<close> has.\<close>

definition py_mod :: "int \<Rightarrow> int \<Rightarrow> error + int" where
  "py_mod a b = (if b = 0 then Inl ZeroDivisionError else Inr (a mod b))"

text \<open>\<open>[0] * n\<close>: empty when \<open>n\<close> is not positive.\<close>

definition zeros :: "int \<Rightarrow> int list" where
  "zeros n = replicate (nat n) 0"

text \<open>\<open>g[r][c]\<close> and \<open>g[r][c] = v\<close> on a list of rows. No two rows of the engine's grid
  are the same object (every row is built by its own \<open>[0] * n\<close> or by a slice), so
  writing one row leaves the others as they are.\<close>

definition get_cell :: "int list list \<Rightarrow> int \<Rightarrow> int \<Rightarrow> error + int" where
  "get_cell g r c = rbind (py_index g r) (\<lambda>row. py_index row c)"

definition set_cell :: "int list list \<Rightarrow> int \<Rightarrow> int \<Rightarrow> int \<Rightarrow> error + int list list" where
  "set_cell g r c v =
     rbind (py_index g r) (\<lambda>row. rbind (py_store row c v) (\<lambda>row'. py_store g r row'))"

section \<open>The model\<close>

record model =
  num_rows :: int
  num_cols :: int
  live_state :: int
  wrap :: bool
  trace :: bool
  cell_states :: "int list list"
  population :: int
  total_cells :: int

text \<open>\<open>Model.__init__\<close>.\<close>

definition Model_init :: "int \<Rightarrow> int \<Rightarrow> int \<Rightarrow> bool \<Rightarrow> bool \<Rightarrow> model" where
  "Model_init n_rows n_cols live w t =
     \<lparr>num_rows = n_rows, num_cols = n_cols, live_state = live, wrap = w, trace = t,
      cell_states = map (\<lambda>_. zeros n_cols) (py_range n_rows),
      population = 0, total_cells = n_rows * n_cols\<rparr>"

subsection \<open>Counting the live neighbours\<close>

text \<open>One pass of the inner loop of \<open>_count_live_neighbors\<close>; a \<open>continue\<close> returns the
  count as it is.\<close>

definition neighbor_visit :: "model \<Rightarrow> int \<Rightarrow> int \<Rightarrow> int \<Rightarrow> int \<Rightarrow> int \<Rightarrow> error + int" where
  "neighbor_visit m row col d_row d_col live_neighbors =
     (if d_row = 0 \<and> d_col = 0 then Inr live_neighbors
      else
        let neighbor_row = row + d_row; neighbor_col = col + d_col in
        if \<not> (0 \<le> neighbor_row \<and> neighbor_row < num_rows m) \<and> \<not> wrap m
        then Inr live_neighbors
        else
          rbind (if \<not> (0 \<le> neighbor_row \<and> neighbor_row < num_rows m)
                 then py_mod neighbor_row (num_rows m) else Inr neighbor_row)
            (\<lambda>neighbor_row.
              if \<not> (0 \<le> neighbor_col \<and> neighbor_col < num_cols m) \<and> \<not> wrap m
              then Inr live_neighbors
              else
                rbind (if \<not> (0 \<le> neighbor_col \<and> neighbor_col < num_cols m)
                       then py_mod neighbor_col (num_cols m) else Inr neighbor_col)
                  (\<lambda>neighbor_col.
                    rbind (get_cell (cell_states m) neighbor_row neighbor_col)
                      (\<lambda>v. Inr (if v = live_state m then live_neighbors + 1
                                 else live_neighbors)))))"

definition count_live_neighbors :: "model \<Rightarrow> int \<Rightarrow> int \<Rightarrow> error + int" where
  "count_live_neighbors m row col =
     for_each (\<lambda>d_row. for_each (\<lambda>d_col. neighbor_visit m row col d_row d_col) [- 1, 0, 1])
       [- 1, 0, 1] 0"

subsection \<open>One generation\<close>

text \<open>The body of the double loop of \<open>step\<close>. The loop state is the pair of the
  local variables \<open>cell_states\<close> (the new grid) and \<open>population\<close>; the old grid is read
  from \<open>m\<close>, which the loop never writes.\<close>

definition step_cell ::
  "model \<Rightarrow> int \<Rightarrow> int \<Rightarrow> int list list \<times> int \<Rightarrow> error + int list list \<times> int" where
  "step_cell m row col s =
     (case s of (new_states, new_population) \<Rightarrow>
        rbind (get_cell (cell_states m) row col) (\<lambda>cell_state.
        rbind (count_live_neighbors m row col) (\<lambda>live_neighbors.
          if cell_state = live_state m \<and> 2 \<le> live_neighbors \<and> live_neighbors \<le> 3
             \<or> cell_state < live_state m \<and> live_neighbors = 3
          then rbind (set_cell new_states row col (live_state m))
                 (\<lambda>g. Inr (g, new_population + 1))
          else if trace m \<and> cell_state \<noteq> 0
          then rbind (set_cell new_states row col (max (cell_state - 1) 1))
                 (\<lambda>g. Inr (g, new_population))
          else Inr (new_states, new_population))))"

definition step :: "model \<Rightarrow> error + model" where
  "step m =
     rbind (for_each (\<lambda>row. for_each (\<lambda>col. step_cell m row col) (py_range (num_cols m)))
              (py_range (num_rows m))
              (map (\<lambda>_. zeros (num_cols m)) (py_range (num_rows m)), 0))
       (\<lambda>s. case s of (g, p) \<Rightarrow> Inr (m\<lparr>cell_states := g, population := p\<rparr>))"

subsection \<open>Randomize and clear\<close>

text \<open>\<open>getrandbits(1)\<close> is an input of the model: the \<open>k\<close>-th call returns \<open>bits k\<close>.
  The loop state is the model and the number of calls made so far.\<close>

definition randomize_cell ::
  "(nat \<Rightarrow> bool) \<Rightarrow> int \<Rightarrow> int \<Rightarrow> model \<times> nat \<Rightarrow> error + model \<times> nat" where
  "randomize_cell bits row col s =
     (case s of (m, k) \<Rightarrow>
        if bits k
        then rbind (set_cell (cell_states m) row col (live_state m))
               (\<lambda>g. Inr (m\<lparr>cell_states := g, population := population m + 1\<rparr>, Suc k))
        else rbind (set_cell (cell_states m) row col 0)
               (\<lambda>g. Inr (m\<lparr>cell_states := g\<rparr>, Suc k)))"

definition randomize :: "(nat \<Rightarrow> bool) \<Rightarrow> model \<Rightarrow> error + model" where
  "randomize bits m =
     rbind (for_each (\<lambda>row. for_each (\<lambda>col. randomize_cell bits row col)
                               (py_range (num_cols m)))
              (py_range (num_rows m)) (m\<lparr>population := 0\<rparr>, 0))
       (\<lambda>s. Inr (fst s))"

definition clear_cell :: "int \<Rightarrow> int \<Rightarrow> model \<Rightarrow> error + model" where
  "clear_cell row col m =
     rbind (set_cell (cell_states m) row col 0) (\<lambda>g. Inr (m\<lparr>cell_states := g\<rparr>))"

definition clear :: "model \<Rightarrow> error + model" where
  "clear m =
     rbind (for_each (\<lambda>row. for_each (\<lambda>col. clear_cell row col) (py_range (num_cols m)))
              (py_range (num_rows m)) m)
       (\<lambda>m'. Inr (m'\<lparr>population := 0\<rparr>))"

subsection \<open>The two flags\<close>

definition toggle_wrap :: "model \<Rightarrow> model" where
  "toggle_wrap m = m\<lparr>wrap := \<not> wrap m\<rparr>"

definition fade_out_cell :: "int \<Rightarrow> int \<Rightarrow> model \<Rightarrow> error + model" where
  "fade_out_cell row col m =
     rbind (get_cell (cell_states m) row col) (\<lambda>v.
       if v < live_state m
       then rbind (set_cell (cell_states m) row col 0) (\<lambda>g. Inr (m\<lparr>cell_states := g\<rparr>))
       else Inr m)"

definition toggle_trace :: "model \<Rightarrow> error + model" where
  "toggle_trace m =
     (let m1 = m\<lparr>trace := \<not> trace m\<rparr> in
      if \<not> trace m1
      then for_each (\<lambda>row. for_each (\<lambda>col. fade_out_cell row col) (py_range (num_cols m1)))
             (py_range (num_rows m1)) m1
      else Inr m1)"

subsection \<open>Resizing\<close>

text \<open>\<open>if self.cell_states[row][col] == self.live_state: self.population -= 1\<close>.\<close>

definition drop_scan :: "int \<Rightarrow> int \<Rightarrow> model \<Rightarrow> error + model" where
  "drop_scan row col m =
     rbind (get_cell (cell_states m) row col) (\<lambda>v.
       Inr (if v = live_state m then m\<lparr>population := population m - 1\<rparr> else m))"

text \<open>The block under \<open># Adjust rows\<close>.\<close>

definition adjust_rows :: "int \<Rightarrow> int \<Rightarrow> int \<Rightarrow> model \<Rightarrow> error + model" where
  "adjust_rows old_num_rows old_num_cols new_num_rows m =
     (if new_num_rows > old_num_rows
      then Inr (fold (\<lambda>_ m'. m'\<lparr>cell_states := cell_states m' @ [zeros old_num_cols]\<rparr>)
                  (py_range_from old_num_rows new_num_rows) m)
      else if new_num_rows < old_num_rows
      then rbind (for_each (\<lambda>row. for_each (\<lambda>col. drop_scan row col) (py_range old_num_cols))
                    (py_range_down (old_num_rows - 1) (new_num_rows - 1)) m)
             (\<lambda>m'. Inr (m'\<lparr>cell_states := py_take new_num_rows (cell_states m')\<rparr>))
      else Inr m)"

text \<open>\<open>self.cell_states[row].extend([0] * k)\<close>.\<close>

definition extend_row :: "int \<Rightarrow> int \<Rightarrow> model \<Rightarrow> error + model" where
  "extend_row k row m =
     rbind (py_index (cell_states m) row) (\<lambda>r.
     rbind (py_store (cell_states m) row (r @ zeros k)) (\<lambda>g.
       Inr (m\<lparr>cell_states := g\<rparr>)))"

text \<open>One row of the column shrink: the scan of the cells to drop, then
  \<open>self.cell_states[row] = self.cell_states[row][:new_num_cols]\<close>.\<close>

definition shrink_row :: "int \<Rightarrow> int \<Rightarrow> int \<Rightarrow> model \<Rightarrow> error + model" where
  "shrink_row old_num_cols new_num_cols row m =
     rbind (for_each (\<lambda>col. drop_scan row col)
              (py_range_down (old_num_cols - 1) (new_num_cols - 1)) m) (\<lambda>m'.
     rbind (py_index (cell_states m') row) (\<lambda>r.
     rbind (py_store (cell_states m') row (py_take new_num_cols r)) (\<lambda>g.
       Inr (m'\<lparr>cell_states := g\<rparr>))))"

text \<open>The block under \<open># Adjust cols\<close>.\<close>

definition adjust_cols :: "int \<Rightarrow> int \<Rightarrow> int \<Rightarrow> model \<Rightarrow> error + model" where
  "adjust_cols old_num_cols new_num_rows new_num_cols m =
     (if new_num_cols > old_num_cols
      then for_each (extend_row (new_num_cols - old_num_cols)) (py_range new_num_rows) m
      else if new_num_cols < old_num_cols
      then for_each (shrink_row old_num_cols new_num_cols) (py_range new_num_rows) m
      else Inr m)"

definition adjust_grid_size :: "int \<Rightarrow> int \<Rightarrow> model \<Rightarrow> error + model" where
  "adjust_grid_size new_num_rows new_num_cols m =
     (let old_num_rows = num_rows m;
          old_num_cols = num_cols m;
          m1 = m\<lparr>num_rows := new_num_rows, num_cols := new_num_cols\<rparr>
      in rbind (adjust_rows old_num_rows old_num_cols new_num_rows m1) (\<lambda>m2.
         rbind (adjust_cols old_num_cols new_num_rows new_num_cols m2) (\<lambda>m3.
           Inr (m3\<lparr>total_cells := num_rows m3 * num_cols m3\<rparr>))))"

subsection \<open>Point edits\<close>

text \<open>One pass of the loop of \<open>set_cells_state\<close>. Python's \<open>and\<close> reads the cell only
  when its left operand is true, so each of the two tests is a result of its own.\<close>

definition set_cell_state :: "bool \<Rightarrow> int \<times> int \<Rightarrow> model \<Rightarrow> error + model" where
  "set_cell_state state rc m =
     (case rc of (row, col) \<Rightarrow>
        rbind (if state
               then rbind (get_cell (cell_states m) row col) (\<lambda>v. Inr (v \<noteq> live_state m))
               else Inr False) (\<lambda>make_alive.
        if make_alive
        then rbind (set_cell (cell_states m) row col (live_state m))
               (\<lambda>g. Inr (m\<lparr>cell_states := g, population := population m + 1\<rparr>))
        else
          rbind (if \<not> state
                 then rbind (get_cell (cell_states m) row col) (\<lambda>v. Inr (v \<noteq> 0))
                 else Inr False) (\<lambda>make_dead.
          if make_dead
          then rbind (get_cell (cell_states m) row col) (\<lambda>v.
                 let m' = (if v = live_state m then m\<lparr>population := population m - 1\<rparr> else m)
                 in rbind (set_cell (cell_states m') row col 0)
                      (\<lambda>g. Inr (m'\<lparr>cell_states := g\<rparr>)))
          else Inr m)))"

definition set_cells_state :: "(int \<times> int) list \<Rightarrow> bool \<Rightarrow> model \<Rightarrow> error + model" where
  "set_cells_state cells state m = for_each (set_cell_state state) cells m"

text \<open>\<open>get_cell_states\<close> returns the grid itself.\<close>

definition get_cell_states :: "model \<Rightarrow> int list list" where
  "get_cell_states m = cell_states m"

section \<open>What the claims speak of\<close>

subsection \<open>The state of the data model\<close>

text \<open>The number of cells that hold \<open>live_state\<close>, over the whole stored grid.\<close>

definition count_live :: "model \<Rightarrow> int" where
  "count_live m = int (length (filter (\<lambda>v. v = live_state m) (concat (cell_states m))))"

text \<open>The stored grid is a rectangle of \<open>num_rows\<close> rows of \<open>num_cols\<close> cells.\<close>

definition well_formed :: "model \<Rightarrow> bool" where
  "well_formed m \<longleftrightarrow>
     0 \<le> num_rows m \<and> 0 \<le> num_cols m \<and> int (length (cell_states m)) = num_rows m
     \<and> list_all (\<lambda>row. int (length row) = num_cols m) (cell_states m)"

text \<open>Every stored cell is between 0 and \<open>live_state\<close>.\<close>

definition cells_in_range :: "model \<Rightarrow> bool" where
  "cells_in_range m \<longleftrightarrow>
     list_all (list_all (\<lambda>v. 0 \<le> v \<and> v \<le> live_state m)) (cell_states m)"

text \<open>\<open>population\<close> is the number of live cells.\<close>

definition population_ok :: "model \<Rightarrow> bool" where
  "population_ok m \<longleftrightarrow> population m = count_live m"

text \<open>A coordinate pair inside the grid: what \<open>set_cells_state\<close> expects of its caller.\<close>

definition in_grid :: "model \<Rightarrow> int \<times> int \<Rightarrow> bool" where
  "in_grid m rc \<longleftrightarrow> 0 \<le> fst rc \<and> fst rc < num_rows m \<and> 0 \<le> snd rc \<and> snd rc < num_cols m"

text \<open>The states the engine can be in: a freshly constructed model with
  \<open>live_state > 1\<close>, and what an operation that returns makes of such a state, with
  the coordinates of \<open>set_cells_state\<close> inside the grid and the dimensions of
  \<open>adjust_grid_size\<close> not negative.\<close>

inductive reachable :: "model \<Rightarrow> bool" where
  construct: "1 < live \<Longrightarrow> reachable (Model_init n_rows n_cols live w t)"
| after_step: "reachable m \<Longrightarrow> step m = Inr m' \<Longrightarrow> reachable m'"
| after_randomize: "reachable m \<Longrightarrow> randomize bits m = Inr m' \<Longrightarrow> reachable m'"
| after_clear: "reachable m \<Longrightarrow> clear m = Inr m' \<Longrightarrow> reachable m'"
| after_set_cells_state:
    "reachable m \<Longrightarrow> list_all (in_grid m) cells \<Longrightarrow> set_cells_state cells state m = Inr m'
     \<Longrightarrow> reachable m'"
| after_toggle_wrap: "reachable m \<Longrightarrow> reachable (toggle_wrap m)"
| after_toggle_trace: "reachable m \<Longrightarrow> toggle_trace m = Inr m' \<Longrightarrow> reachable m'"
| after_adjust_grid_size:
    "reachable m \<Longrightarrow> 0 \<le> new_num_rows \<Longrightarrow> 0 \<le> new_num_cols
     \<Longrightarrow> adjust_grid_size new_num_rows new_num_cols m = Inr m' \<Longrightarrow> reachable m'"

subsection \<open>The neighbour counter in the words of the specification\<close>

text \<open>The eight offsets: all pairs over \<open>-1, 0, 1\<close> but \<open>(0, 0)\<close>.\<close>

definition moore_offsets :: "(int \<times> int) list" where
  "moore_offsets =
     filter (\<lambda>d. \<not> (fst d = 0 \<and> snd d = 0)) (List.product [- 1, 0, 1] [- 1, 0, 1])"

text \<open>One axis of a neighbour: a coordinate inside \<open>[0, n)\<close> is kept; one outside is
  absent without wrap and reduced modulo \<open>n\<close> with wrap.\<close>

definition resolve_axis :: "bool \<Rightarrow> int \<Rightarrow> int \<Rightarrow> int option" where
  "resolve_axis w n x =
     (if 0 \<le> x \<and> x < n then Some x else if w then Some (x mod n) else None)"

text \<open>The neighbour at offset \<open>d\<close> counts: both axes resolve, each on its own, and the
  cell they name holds exactly \<open>live_state\<close>.\<close>

definition neighbor_counts :: "model \<Rightarrow> int \<Rightarrow> int \<Rightarrow> int \<times> int \<Rightarrow> bool" where
  "neighbor_counts m row col d =
     (case resolve_axis (wrap m) (num_rows m) (row + fst d) of
        None \<Rightarrow> False
      | Some nr \<Rightarrow>
          (case resolve_axis (wrap m) (num_cols m) (col + snd d) of
             None \<Rightarrow> False
           | Some nc \<Rightarrow> cell_states m ! nat nr ! nat nc = live_state m))"

text \<open>The specification's \<open>live_neighbor_count\<close>: how many of the eight offsets count.\<close>

definition live_neighbor_count :: "model \<Rightarrow> int \<Rightarrow> int \<Rightarrow> int" where
  "live_neighbor_count m row col =
     int (length (filter (neighbor_counts m row col) moore_offsets))"

subsection \<open>The next generation in the words of the specification\<close>

text \<open>The birth and survival rule.\<close>

definition becomes_live :: "model \<Rightarrow> int \<Rightarrow> int \<Rightarrow> bool" where
  "becomes_live m cell_state n \<longleftrightarrow>
     cell_state = live_state m \<and> (n = 2 \<or> n = 3) \<or> cell_state < live_state m \<and> n = 3"

text \<open>The next value of the cell at row \<open>i\<close>, column \<open>j\<close>, from the grid before the step:
  the rule, then the fade, then 0.\<close>

definition next_state :: "model \<Rightarrow> nat \<Rightarrow> nat \<Rightarrow> int" where
  "next_state m i j =
     (let cell_state = cell_states m ! i ! j;
          n = live_neighbor_count m (int i) (int j)
      in if becomes_live m cell_state n then live_state m
         else if trace m \<and> cell_state \<noteq> 0 then max (cell_state - 1) 1
         else 0)"

definition next_grid :: "model \<Rightarrow> int list list" where
  "next_grid m =
     map (\<lambda>i. map (\<lambda>j. next_state m i j) [0..<nat (num_cols m)]) [0..<nat (num_rows m)]"

text \<open>The number of cells the rule sets alive.\<close>

definition next_population :: "model \<Rightarrow> int" where
  "next_population m =
     int (length (filter
       (\<lambda>p. becomes_live m (cell_states m ! fst p ! snd p)
              (live_neighbor_count m (int (fst p)) (int (snd p))))
       (List.product [0..<nat (num_rows m)] [0..<nat (num_cols m)])))"

subsection \<open>Trace collapse and resizing in the words of the specification\<close>

text \<open>The grid after trace is switched off: every cell below \<open>live_state\<close> is 0.\<close>

definition collapse_trails :: "model \<Rightarrow> int list list" where
  "collapse_trails m = map (map (\<lambda>v. if v < live_state m then 0 else v)) (cell_states m)"

text \<open>The resized grid as the specification describes it: the cells whose coordinates
  stay valid keep their value, the new ones are 0.\<close>

definition resized :: "int \<Rightarrow> int \<Rightarrow> model \<Rightarrow> int list list" where
  "resized nr nc m =
     map (\<lambda>i. map (\<lambda>j. if int i < num_rows m \<and> int j < num_cols m
                          then cell_states m ! i ! j else 0) [0..<nat nc]) [0..<nat nr]"

text \<open>The cell at position \<open>p\<close> holds \<open>live_state\<close>.\<close>

definition live_cell :: "model \<Rightarrow> nat \<times> nat \<Rightarrow> bool" where
  "live_cell m p \<longleftrightarrow> cell_states m ! fst p ! snd p = live_state m"

text \<open>The number of cells of the old grid that hold \<open>live_state\<close> and are not inside
  the new dimensions.\<close>

definition dropped_live :: "model \<Rightarrow> int \<Rightarrow> int \<Rightarrow> int" where
  "dropped_live m nr nc =
     int (length (filter (\<lambda>p. live_cell m p \<and> \<not> (int (fst p) < nr \<and> int (snd p) < nc))
            (List.product [0..<nat (num_rows m)] [0..<nat (num_cols m)])))"

text \<open>The model after \<open>adjust_grid_size(0, 0)\<close>.\<close>

definition emptied :: "model \<Rightarrow> model" where
  "emptied m =
     m\<lparr>num_rows := 0, num_cols := 0, cell_states := [], population := 0, total_cells := 0\<rparr>"

subsection \<open>The grids of the examples\<close>

text \<open>A wrapped 3 by 3 grid whose row \<open>k\<close> is live and whose other cells are dead.\<close>

definition blinker :: "int \<Rightarrow> nat \<Rightarrow> bool \<Rightarrow> model" where
  "blinker L k t =
     \<lparr>num_rows = 3, num_cols = 3, live_state = L, wrap = True, trace = t,
      cell_states = map (\<lambda>i. if i = k then [L, L, L] else [0, 0, 0]) [0, 1, 2],
      population = 3, total_cells = 9\<rparr>"

text \<open>A wrapped 3 by 3 grid whose cells all hold \<open>v\<close>.\<close>

definition uniform3 :: "int \<Rightarrow> int \<Rightarrow> int \<Rightarrow> bool \<Rightarrow> model" where
  "uniform3 L v p t =
     \<lparr>num_rows = 3, num_cols = 3, live_state = L, wrap = True, trace = t,
      cell_states = [[v, v, v], [v, v, v], [v, v, v]],
      population = p, total_cells = 9\<rparr>"

text \<open>A 1 by 1 grid without wrap, \<open>live_state = 4\<close>, whose cell holds \<open>v\<close>.\<close>

definition lone_cell :: "int \<Rightarrow> int \<Rightarrow> bool \<Rightarrow> model" where
  "lone_cell v p t =
     \<lparr>num_rows = 1, num_cols = 1, live_state = 4, wrap = False, trace = t,
      cell_states = [[v]], population = p, total_cells = 1\<rparr>"

text \<open>A 5 by 5 grid with live cells at (0,0) and (4,4) only.\<close>

definition two_corners :: "int \<Rightarrow> bool \<Rightarrow> model" where
  "two_corners L w =
     \<lparr>num_rows = 5, num_cols = 5, live_state = L, wrap = w, trace = False,
      cell_states = [[L, 0, 0, 0, 0], [0, 0, 0, 0, 0], [0, 0, 0, 0, 0], [0, 0, 0, 0, 0],
                     [0, 0, 0, 0, L]],
      population = 2, total_cells = 25\<rparr>"

text \<open>A 4 by 4 grid with the cell (3,3) alive only, and the all-dead square grids.\<close>

definition corner_alive :: model where
  "corner_alive =
     \<lparr>num_rows = 4, num_cols = 4, live_state = 16, wrap = False, trace = False,
      cell_states = [[0, 0, 0, 0], [0, 0, 0, 0], [0, 0, 0, 0], [0, 0, 0, 16]],
      population = 1, total_cells = 16\<rparr>"

definition all_dead :: "int \<Rightarrow> model" where
  "all_dead n = Model_init n n 16 False False"

section \<open>Notions of the proofs\<close>

subsection \<open>Positions, ranges and the invariant\<close>

text \<open>The positions of the stored grid that hold \<open>L\<close>.\<close>

definition live_at :: "int \<Rightarrow> int list list \<Rightarrow> (nat \<times> nat) set" where
  "live_at L g = {(i, j). i < length g \<and> j < length (g ! i) \<and> g ! i ! j = L}"

text \<open>Every cell of the stored grid is between 0 and \<open>L\<close>.\<close>

definition grid_in_range :: "int \<Rightarrow> int list list \<Rightarrow> bool" where
  "grid_in_range L g \<longleftrightarrow> (\<forall>i j. i < length g \<longrightarrow> j < length (g ! i) \<longrightarrow> 0 \<le> g ! i ! j \<and> g ! i ! j \<le> L)"

text \<open>Every cell of the stored grid that is not 0 lies inside the first \<open>R\<close> rows and
  the first \<open>C\<close> columns.\<close>

definition dead_outside :: "int \<Rightarrow> int \<Rightarrow> int list list \<Rightarrow> bool" where
  "dead_outside R C g \<longleftrightarrow>
     (\<forall>i j. i < length g \<longrightarrow> j < length (g ! i) \<longrightarrow> g ! i ! j \<noteq> 0 \<longrightarrow> int i < R \<and> int j < C)"

text \<open>The invariant of the engine: \<open>live_state\<close> is above 1, every stored cell is
  between 0 and \<open>live_state\<close>, \<open>population\<close> is the number of stored cells that hold
  \<open>live_state\<close>, and every stored cell outside the \<open>num_rows\<close> by \<open>num_cols\<close> rectangle
  is 0.\<close>

definition engine_inv :: "model \<Rightarrow> bool" where
  "engine_inv m \<longleftrightarrow>
     1 < live_state m \<and> grid_in_range (live_state m) (cell_states m)
     \<and> population m = int (card (live_at (live_state m) (cell_states m)))
     \<and> dead_outside (num_rows m) (num_cols m) (cell_states m)"

text \<open>\<open>m'\<close> differs from \<open>m\<close> in the grid and the population only.\<close>

definition frame :: "model \<Rightarrow> model \<Rightarrow> bool" where
  "frame m m' \<longleftrightarrow>
     num_rows m' = num_rows m \<and> num_cols m' = num_cols m \<and> live_state m' = live_state m
     \<and> wrap m' = wrap m \<and> trace m' = trace m \<and> total_cells m' = total_cells m"

text \<open>The position \<open>p\<close> exists in the stored grid.\<close>

definition cell_ok :: "int list list \<Rightarrow> nat \<times> nat \<Rightarrow> bool" where
  "cell_ok g p \<longleftrightarrow> fst p < length g \<and> snd p < length (g ! fst p)"

text \<open>The grid has \<open>r\<close> rows of \<open>c\<close> cells.\<close>

definition rect :: "nat \<Rightarrow> nat \<Rightarrow> int list list \<Rightarrow> bool" where
  "rect r c g \<longleftrightarrow> length g = r \<and> list_all (\<lambda>row. length row = c) g"

text \<open>The grid with \<open>f\<close> applied to the rows whose index is in \<open>S\<close>.\<close>

definition on_rows :: "nat set \<Rightarrow> (int list \<Rightarrow> int list) \<Rightarrow> int list list \<Rightarrow> int list list" where
  "on_rows S f g = map (\<lambda>i. if i \<in> S then f (g ! i) else g ! i) [0..<length g]"

text \<open>The cell at \<open>rc\<close> exists and holds what \<open>set_cells_state\<close> with \<open>state\<close> leaves
  there.\<close>

definition settled :: "bool \<Rightarrow> model \<Rightarrow> int \<times> int \<Rightarrow> bool" where
  "settled state m rc \<longleftrightarrow>
     get_cell (cell_states m) (fst rc) (snd rc) = Inr (if state then live_state m else 0)"

subsection \<open>Loop invariants\<close>

text \<open>The loop of \<open>step\<close> on a rectangular grid, after the cells \<open>ys\<close>: the new grid has its
  shape, holds the next value at the cells done and 0 elsewhere, and the count is the
  number of cells done that the rule set alive.\<close>

definition step_inv ::
  "model \<Rightarrow> (nat \<times> nat) list \<Rightarrow> int list list \<times> int \<Rightarrow> bool" where
  "step_inv m ys s \<longleftrightarrow>
     length (fst s) = nat (num_rows m)
     \<and> (\<forall>i < nat (num_rows m). length (fst s ! i) = nat (num_cols m))
     \<and> (\<forall>i < nat (num_rows m). \<forall>j < nat (num_cols m).
           fst s ! i ! j = (if (i, j) \<in> set ys then next_state m i j else 0))
     \<and> snd s = int (length (filter
          (\<lambda>p. becomes_live m (cell_states m ! fst p ! snd p)
                 (live_neighbor_count m (int (fst p)) (int (snd p)))) ys))"

text \<open>The loop of \<open>step\<close> on any grid, after the cells \<open>ys\<close>: the new grid is in range,
  the count is the number of its live cells, and only cells done are not 0.\<close>

definition step_keeps_inv :: "int \<Rightarrow> (nat \<times> nat) list \<Rightarrow> int list list \<times> int \<Rightarrow> bool" where
  "step_keeps_inv L ys s \<longleftrightarrow>
     grid_in_range L (fst s) \<and> snd s = int (card (live_at L (fst s)))
     \<and> (\<forall>i j. i < length (fst s) \<longrightarrow> j < length (fst s ! i) \<longrightarrow> fst s ! i ! j \<noteq> 0
           \<longrightarrow> (i, j) \<in> set ys)"

text \<open>The loop of \<open>clear\<close> after the cells \<open>ys\<close>: a cell that is not 0 is inside the
  rectangle and not done yet.\<close>

definition clear_inv :: "model \<Rightarrow> (nat \<times> nat) list \<Rightarrow> model \<Rightarrow> bool" where
  "clear_inv m ys t \<longleftrightarrow>
     frame m t
     \<and> (\<forall>i j. i < length (cell_states t) \<longrightarrow> j < length (cell_states t ! i) \<longrightarrow>
           cell_states t ! i ! j \<noteq> 0 \<longrightarrow> int i < num_rows m \<and> int j < num_cols m \<and> (i, j) \<notin> set ys)"

text \<open>The loop of \<open>randomize\<close> after the cells \<open>ys\<close>: \<open>population\<close> is the number of
  live cells among those done.\<close>

definition rand_inv :: "model \<Rightarrow> (nat \<times> nat) list \<Rightarrow> model \<times> nat \<Rightarrow> bool" where
  "rand_inv m ys s \<longleftrightarrow>
     frame m (fst s) \<and> grid_in_range (live_state m) (cell_states (fst s))
     \<and> dead_outside (num_rows m) (num_cols m) (cell_states (fst s))
     \<and> population (fst s)
         = int (card (live_at (live_state m) (cell_states (fst s)) \<inter> set ys))"

text \<open>The loop of \<open>toggle_trace\<close> on a rectangular grid, after the cells \<open>ys\<close>.\<close>

definition fade_inv :: "model \<Rightarrow> (nat \<times> nat) list \<Rightarrow> model \<Rightarrow> bool" where
  "fade_inv m ys t \<longleftrightarrow>
     well_formed t \<and> frame (m\<lparr>trace := False\<rparr>) t \<and> population t = population m
     \<and> (\<forall>i < nat (num_rows m). \<forall>j < nat (num_cols m).
           cell_states t ! i ! j
           = (if (i, j) \<in> set ys \<and> cell_states m ! i ! j < live_state m then 0
              else cell_states m ! i ! j))"

section \<open>Evaluation rules\<close>

lemma rbind_Inr [simp]: "rbind (Inr x) f = f x"
  by (simp add: rbind_def)

lemma rbind_Inl [simp]: "rbind (Inl e) f = Inl e"
  by (simp add: rbind_def)

lemma rbind_eq_Inr: "rbind r f = Inr y \<longleftrightarrow> (\<exists>x. r = Inr x \<and> f x = Inr y)"
  by (cases r) simp_all

section \<open>Loops\<close>

lemma for_each_append:
  "for_each f (xs @ ys) s = rbind (for_each f xs s) (for_each f ys)"
  by (induction xs arbitrary: s) (auto simp: rbind_def split: sum.splits)

lemma for_each_map: "for_each f (map g xs) s = for_each (\<lambda>x. f (g x)) xs s"
  by (induction xs arbitrary: s) (auto simp: rbind_def split: sum.splits)

lemma for_each_map_fun: "for_each f (map g xs) = for_each (\<lambda>x. f (g x)) xs"
  by (rule ext) (rule for_each_map)

lemma for_each_nested:
  "for_each (\<lambda>r. for_each (\<lambda>c. b r c) cs) rs s
   = for_each (\<lambda>p. b (fst p) (snd p)) (List.product rs cs) s"
proof (induction rs arbitrary: s)
  case Nil
  show ?case by simp
next
  case (Cons r rs)
  have "for_each (\<lambda>p. b (fst p) (snd p)) (List.product (r # rs) cs) s
        = rbind (for_each (b r) cs s) (for_each (\<lambda>p. b (fst p) (snd p)) (List.product rs cs))"
    by (simp add: for_each_append for_each_map)
  then show ?case using Cons.IH by (simp add: rbind_def split: sum.splits)
qed

lemma for_each_inv:
  assumes run: "for_each f xs s = Inr s'"
    and init: "P [] s"
    and keep: "\<And>ys x zs t t'. xs = ys @ x # zs \<Longrightarrow> P ys t \<Longrightarrow> f x t = Inr t'
                 \<Longrightarrow> P (ys @ [x]) t'"
  shows "P xs s'"
proof -
  have "for_each f zs t = Inr s' \<Longrightarrow> xs = ys @ zs \<Longrightarrow> P ys t \<Longrightarrow> P xs s'" for ys zs t
  proof (induction zs arbitrary: ys t)
    case Nil
    then show ?case by simp
  next
    case (Cons z zs)
    from Cons.prems(1) obtain t' where t': "f z t = Inr t'" "for_each f zs t' = Inr s'"
      by (auto simp: rbind_eq_Inr)
    have "P (ys @ [z]) t'" using keep [OF Cons.prems(2) Cons.prems(3) t'(1)] .
    then show ?case using Cons.IH [of t' "ys @ [z]"] t'(2) Cons.prems(2) by simp
  qed
  from this [of xs s "[]"] run init show ?thesis by simp
qed

lemma for_each_total:
  assumes init: "P [] s"
    and keep: "\<And>ys x zs t. xs = ys @ x # zs \<Longrightarrow> P ys t
                 \<Longrightarrow> \<exists>t'. f x t = Inr t' \<and> P (ys @ [x]) t'"
  shows "\<exists>s'. for_each f xs s = Inr s' \<and> P xs s'"
proof -
  have "xs = ys @ zs \<Longrightarrow> P ys t \<Longrightarrow> \<exists>s'. for_each f zs t = Inr s' \<and> P xs s'" for ys zs t
  proof (induction zs arbitrary: ys t)
    case Nil
    then show ?case by simp
  next
    case (Cons z zs)
    from keep [OF Cons.prems] obtain t' where t': "f z t = Inr t'" "P (ys @ [z]) t'"
      by blast
    from Cons.IH [of "ys @ [z]" t'] Cons.prems(1) t'(2)
    obtain s' where "for_each f zs t' = Inr s'" "P xs s'" by auto
    then show ?case using t'(1) by simp
  qed
  from this [of "[]" xs s] init show ?thesis by simp
qed

section \<open>Indexing with indices that are not negative\<close>

lemma py_pos_int [simp]:
  "py_pos xs (int i) = (if i < length xs then Inr i else Inl IndexError)"
  by (simp add: py_pos_def)

lemma py_index_int [simp]:
  "py_index xs (int i) = (if i < length xs then Inr (xs ! i) else Inl IndexError)"
  by (simp add: py_index_def)

lemma py_store_int [simp]:
  "py_store xs (int i) v = (if i < length xs then Inr (xs[i := v]) else Inl IndexError)"
  by (simp add: py_store_def)

lemma get_cell_int:
  "get_cell g (int i) (int j)
   = (if i < length g \<and> j < length (g ! i) then Inr (g ! i ! j) else Inl IndexError)"
  by (simp add: get_cell_def)

lemma set_cell_int:
  "set_cell g (int i) (int j) v
   = (if i < length g \<and> j < length (g ! i) then Inr (g[i := (g ! i)[j := v]])
      else Inl IndexError)"
  by (simp add: set_cell_def)

section \<open>The neighbour counter\<close>

lemma get_cell_in_range:
  assumes "well_formed m" "0 \<le> r" "r < num_rows m" "0 \<le> c" "c < num_cols m"
  shows "get_cell (cell_states m) r c = Inr (cell_states m ! nat r ! nat c)"
proof -
  from assms have r: "nat r < length (cell_states m)"
    by (simp add: well_formed_def nat_less_iff)
  with assms have "int (length (cell_states m ! nat r)) = num_cols m"
    by (simp add: well_formed_def list_all_length)
  with assms have c: "nat c < length (cell_states m ! nat r)"
    by (simp add: nat_less_iff)
  from get_cell_int [of "cell_states m" "nat r" "nat c"] r c assms show ?thesis by simp
qed

lemma resolve_axis_range:
  "0 < n \<Longrightarrow> resolve_axis w n x = Some y \<Longrightarrow> 0 \<le> y \<and> y < n"
  by (auto simp: resolve_axis_def split: if_splits)

lemma axis_resolved:
  "0 < n \<Longrightarrow>
   (if \<not> (0 \<le> x \<and> x < n) \<and> \<not> w then A
    else rbind (if \<not> (0 \<le> x \<and> x < n) then py_mod x n else Inr x) f)
   = (case resolve_axis w n x of None \<Rightarrow> A | Some y \<Rightarrow> f y)"
  by (simp add: resolve_axis_def py_mod_def)

lemma neighbor_visit_eq:
  assumes wf: "well_formed m" and R: "0 < num_rows m" and C: "0 < num_cols m"
  shows "neighbor_visit m row col d_row d_col k
         = Inr (if d_row = 0 \<and> d_col = 0 then k
                else if neighbor_counts m row col (d_row, d_col) then k + 1 else k)"
proof (cases "d_row = 0 \<and> d_col = 0")
  case True
  then show ?thesis by (simp add: neighbor_visit_def)
next
  case False
  have unfolded: "neighbor_visit m row col d_row d_col k
    = (case resolve_axis (wrap m) (num_rows m) (row + d_row) of
         None \<Rightarrow> Inr k
       | Some nr \<Rightarrow>
           (case resolve_axis (wrap m) (num_cols m) (col + d_col) of
              None \<Rightarrow> Inr k
            | Some nc \<Rightarrow>
                rbind (get_cell (cell_states m) nr nc)
                  (\<lambda>v. Inr (if v = live_state m then k + 1 else k))))"
    using False unfolding neighbor_visit_def Let_def
    by (simp only: axis_resolved [OF R] axis_resolved [OF C] if_False)
  show ?thesis
  proof (cases "resolve_axis (wrap m) (num_rows m) (row + d_row)")
    case None
    then show ?thesis using False by (simp add: unfolded neighbor_counts_def)
  next
    case (Some nr)
    note nr = Some
    have nr_range: "0 \<le> nr \<and> nr < num_rows m" using resolve_axis_range [OF R nr] .
    show ?thesis
    proof (cases "resolve_axis (wrap m) (num_cols m) (col + d_col)")
      case None
      then show ?thesis using False nr by (simp add: unfolded neighbor_counts_def)
    next
      case (Some nc)
      have nc_range: "0 \<le> nc \<and> nc < num_cols m" using resolve_axis_range [OF C Some] .
      have cell: "get_cell (cell_states m) nr nc = Inr (cell_states m ! nat nr ! nat nc)"
        using get_cell_in_range [OF wf] nr_range nc_range by simp
      show ?thesis using False nr Some cell by (simp add: unfolded neighbor_counts_def)
    qed
  qed
qed

lemma count_live_neighbors_eq:
  assumes wf: "well_formed m" and R: "0 < num_rows m" and C: "0 < num_cols m"
  shows "count_live_neighbors m row col = Inr (live_neighbor_count m row col)"
  by (simp add: count_live_neighbors_def live_neighbor_count_def moore_offsets_def
      neighbor_visit_eq [OF wf R C])

section \<open>One generation on a rectangular grid\<close>

lemma nat_loops:
  "for_each (\<lambda>r. for_each (\<lambda>c. b r c) (py_range C)) (py_range R) s
   = for_each (\<lambda>p. b (int (fst p)) (int (snd p))) (List.product [0..<nat R] [0..<nat C]) s"
proof -
  have "for_each (\<lambda>r. for_each (\<lambda>c. b r c) (py_range C)) (py_range R) s
        = for_each (\<lambda>i. for_each (\<lambda>j. b (int i) (int j)) [0..<nat C]) [0..<nat R] s"
    by (simp add: py_range_def for_each_map_fun)
  also have "\<dots> = for_each (\<lambda>p. b (int (fst p)) (int (snd p)))
                      (List.product [0..<nat R] [0..<nat C]) s"
    by (rule for_each_nested)
  finally show ?thesis .
qed

lemma split_product:
  assumes "List.product [0..<a] [0..<b] = ys @ x # zs"
  shows "fst x < a" "snd x < b" "x \<notin> set ys" "x \<notin> set zs"
proof -
  have "x \<in> set (List.product [0..<a] [0..<b])" using assms by simp
  then show "fst x < a" "snd x < b" by auto
  have "distinct (List.product [0..<a] [0..<b])" by (simp add: distinct_product)
  then show "x \<notin> set ys" "x \<notin> set zs" using assms by auto
qed

lemma wf_cell:
  assumes "well_formed m" "i < nat (num_rows m)" "j < nat (num_cols m)"
  shows "i < length (cell_states m)" "j < length (cell_states m ! i)"
proof -
  from assms show i: "i < length (cell_states m)" unfolding well_formed_def by linarith
  with assms have "int (length (cell_states m ! i)) = num_cols m"
    by (simp add: well_formed_def list_all_length)
  with assms show "j < length (cell_states m ! i)" by linarith
qed

lemma step_cell_eq:
  assumes wf: "well_formed m" and i: "i < nat (num_rows m)" and j: "j < nat (num_cols m)"
  shows "step_cell m (int i) (int j) (buf, p)
         = (let cell_state = cell_states m ! i ! j;
                n = live_neighbor_count m (int i) (int j)
            in if becomes_live m cell_state n
               then rbind (set_cell buf (int i) (int j) (live_state m)) (\<lambda>g. Inr (g, p + 1))
               else if trace m \<and> cell_state \<noteq> 0
               then rbind (set_cell buf (int i) (int j) (max (cell_state - 1) 1))
                      (\<lambda>g. Inr (g, p))
               else Inr (buf, p))"
proof -
  have R: "0 < num_rows m" and C: "0 < num_cols m" using i j by simp_all
  have cell: "get_cell (cell_states m) (int i) (int j) = Inr (cell_states m ! i ! j)"
    using wf_cell [OF wf i j] by (simp add: get_cell_int)
  have iff: "(cs = live_state m \<and> 2 \<le> n \<and> n \<le> 3 \<or> cs < live_state m \<and> n = 3)
             = becomes_live m cs n" for cs n :: int
    by (auto simp: becomes_live_def)
  show ?thesis
    by (simp add: step_cell_def cell count_live_neighbors_eq [OF wf R C] iff Let_def)
qed

lemma step_inv_init:
  "step_inv m [] (map (\<lambda>_. zeros (num_cols m)) (py_range (num_rows m)), 0)"
  by (simp add: step_inv_def py_range_def zeros_def)

lemma step_inv_write:
  assumes inv: "step_inv m ys (buf, p)" and i: "i < nat (num_rows m)"
    and j: "j < nat (num_cols m)" and v: "v = next_state m i j"
    and q: "q = p + (if becomes_live m (cell_states m ! i ! j)
                       (live_neighbor_count m (int i) (int j)) then 1 else 0)"
  shows "step_inv m (ys @ [(i, j)]) (buf[i := (buf ! i)[j := v]], q)"
  using assms unfolding step_inv_def
  by (auto simp: nth_list_update)

lemma step_inv_skip:
  assumes inv: "step_inv m ys (buf, p)" and i: "i < nat (num_rows m)"
    and j: "j < nat (num_cols m)" and v: "next_state m i j = 0" and new: "(i, j) \<notin> set ys"
    and q: "\<not> becomes_live m (cell_states m ! i ! j) (live_neighbor_count m (int i) (int j))"
  shows "step_inv m (ys @ [(i, j)]) (buf, p)"
  using assms unfolding step_inv_def
  by auto

lemma step_inv_keep:
  assumes wf: "well_formed m"
    and split: "List.product [0..<nat (num_rows m)] [0..<nat (num_cols m)] = ys @ x # zs"
    and inv: "step_inv m ys t"
  shows "\<exists>t'. step_cell m (int (fst x)) (int (snd x)) t = Inr t' \<and> step_inv m (ys @ [x]) t'"
proof -
  obtain i j where x: "x = (i, j)" by (cases x)
  obtain buf p where t: "t = (buf, p)" by (cases t)
  note sp = split_product [OF split]
  have i: "i < nat (num_rows m)" and j: "j < nat (num_cols m)" and new: "(i, j) \<notin> set ys"
    using sp x by simp_all
  have len: "i < length buf" "j < length (buf ! i)"
    using inv i j unfolding step_inv_def t by simp_all
  let ?cs = "cell_states m ! i ! j"
  let ?n = "live_neighbor_count m (int i) (int j)"
  show ?thesis
  proof (cases "becomes_live m ?cs ?n")
    case True
    then have v: "live_state m = next_state m i j" by (simp add: next_state_def)
    have "step_inv m (ys @ [(i, j)]) (buf[i := (buf ! i)[j := live_state m]], p + 1)"
      using step_inv_write [OF inv [unfolded t] i j v] True by simp
    then show ?thesis using True len
      by (simp add: x t step_cell_eq [OF wf i j] set_cell_int)
  next
    case False
    show ?thesis
    proof (cases "trace m \<and> ?cs \<noteq> 0")
      case True
      then have v: "max (?cs - 1) 1 = next_state m i j" using False
        by (simp add: next_state_def)
      have "step_inv m (ys @ [(i, j)]) (buf[i := (buf ! i)[j := max (?cs - 1) 1]], p)"
        using step_inv_write [OF inv [unfolded t] i j v] False by simp
      then show ?thesis using True False len
        by (simp add: x t step_cell_eq [OF wf i j] set_cell_int)
    next
      case F2: False
      then have v: "next_state m i j = 0" using False by (auto simp: next_state_def)
      have "step_inv m (ys @ [(i, j)]) (buf, p)"
        using step_inv_skip [OF inv [unfolded t] i j v new False] .
      then show ?thesis using F2 False
        by (auto simp: x t step_cell_eq [OF wf i j])
    qed
  qed
qed

lemma step_inv_final:
  assumes "step_inv m (List.product [0..<nat (num_rows m)] [0..<nat (num_cols m)]) (buf, p)"
  shows "buf = next_grid m" "p = next_population m"
proof -
  from assms have len: "length buf = nat (num_rows m)"
    and rows: "\<And>i. i < nat (num_rows m) \<Longrightarrow> length (buf ! i) = nat (num_cols m)"
    and cells: "\<And>i j. i < nat (num_rows m) \<Longrightarrow> j < nat (num_cols m)
                  \<Longrightarrow> buf ! i ! j = next_state m i j"
    and pop: "p = next_population m"
    by (simp_all add: step_inv_def next_population_def)
  show "p = next_population m" by (rule pop)
  show "buf = next_grid m"
  proof (rule nth_equalityI)
    show "length buf = length (next_grid m)" by (simp add: len next_grid_def)
  next
    fix i assume "i < length buf"
    then have i: "i < nat (num_rows m)" by (simp add: len)
    show "buf ! i = next_grid m ! i"
    proof (rule nth_equalityI)
      show "length (buf ! i) = length (next_grid m ! i)" using i
        by (simp add: rows next_grid_def)
    next
      fix j assume "j < length (buf ! i)"
      then have "j < nat (num_cols m)" using i by (simp add: rows)
      then show "buf ! i ! j = next_grid m ! i ! j" using i
        by (simp add: cells next_grid_def)
    qed
  qed
qed

lemma step_eq:
  assumes wf: "well_formed m"
  shows "step m = Inr (m\<lparr>cell_states := next_grid m, population := next_population m\<rparr>)"
proof -
  let ?xs = "List.product [0..<nat (num_rows m)] [0..<nat (num_cols m)]"
  let ?s0 = "(map (\<lambda>_. zeros (num_cols m)) (py_range (num_rows m)), 0::int)"
  have "\<exists>s'. for_each (\<lambda>p. step_cell m (int (fst p)) (int (snd p))) ?xs ?s0 = Inr s'
             \<and> step_inv m ?xs s'"
    by (rule for_each_total [where P = "step_inv m"])
      (use step_inv_init step_inv_keep [OF wf] in blast)+
  then obtain buf p where run: "for_each (\<lambda>p. step_cell m (int (fst p)) (int (snd p))) ?xs ?s0
       = Inr (buf, p)" and fin: "step_inv m ?xs (buf, p)"
    by auto
  show ?thesis
    unfolding step_def nat_loops run using step_inv_final [OF fin] by simp
qed

subsection \<open>The row of three on the wrapped 3 by 3 grid\<close>

lemmas grid_eval =
  next_grid_def next_population_def next_state_def becomes_live_def live_neighbor_count_def
  moore_offsets_def neighbor_counts_def resolve_axis_def Let_def

lemma upt3: "[0..<3] = [0, 1, 2]"
  by (simp add: upt_rec)

lemma blinker_step1:
  assumes L: "1 < L" and k: "k < 3"
  shows "step (blinker L k t) = Inr (uniform3 L L 9 t)"
proof -
  have wf: "well_formed (blinker L k t)"
    by (simp add: well_formed_def blinker_def)
  from k have "k = 0 \<or> k = 1 \<or> k = 2" by arith
  then have "(blinker L k t)\<lparr>cell_states := next_grid (blinker L k t),
        population := next_population (blinker L k t)\<rparr> = uniform3 L L 9 t"
    using L by (elim disjE) (simp_all add: blinker_def uniform3_def grid_eval upt3)
  then show ?thesis by (simp only: step_eq [OF wf])
qed

lemma blinker_step2:
  assumes L: "1 < L"
  shows "step (uniform3 L L 9 t) = Inr (uniform3 L (if t then L - 1 else 0) 0 t)"
proof -
  have wf: "well_formed (uniform3 L L 9 t)"
    by (simp add: well_formed_def uniform3_def)
  have "(uniform3 L L 9 t)\<lparr>cell_states := next_grid (uniform3 L L 9 t),
        population := next_population (uniform3 L L 9 t)\<rparr>
        = uniform3 L (if t then L - 1 else 0) 0 t"
    using L by (simp add: uniform3_def grid_eval upt3)
  then show ?thesis by (simp only: step_eq [OF wf])
qed

subsection \<open>Cell by cell\<close>

lemma next_grid_cell:
  assumes "0 \<le> r" "r < num_rows m" "0 \<le> c" "c < num_cols m"
  shows "get_cell (next_grid m) r c = Inr (next_state m (nat r) (nat c))"
proof -
  have "get_cell (next_grid m) (int (nat r)) (int (nat c)) = Inr (next_state m (nat r) (nat c))"
    unfolding get_cell_int using assms by (simp add: next_grid_def)
  then show ?thesis using assms by simp
qed

lemma step_cells:
  assumes wf: "well_formed m" and rc: "0 \<le> r" "r < num_rows m" "0 \<le> c" "c < num_cols m"
  shows "\<exists>m'. step m = Inr m'
           \<and> get_cell (cell_states m) r c = Inr (cell_states m ! nat r ! nat c)
           \<and> count_live_neighbors m r c = Inr (live_neighbor_count m r c)
           \<and> get_cell (cell_states m') r c = Inr (next_state m (nat r) (nat c))"
proof -
  have R: "0 < num_rows m" and C: "0 < num_cols m" using rc by simp_all
  show ?thesis
    using get_cell_in_range [OF wf rc] count_live_neighbors_eq [OF wf R C] next_grid_cell [OF rc]
    by (simp add: step_eq [OF wf])
qed

lemma cell_upper_bound:
  assumes wf: "well_formed m" and rg: "cells_in_range m"
    and rc: "0 \<le> r" "r < num_rows m" "0 \<le> c" "c < num_cols m"
  shows "cell_states m ! nat r ! nat c \<le> live_state m"
proof -
  have "nat r < nat (num_rows m)" "nat c < nat (num_cols m)" using rc by simp_all
  from wf_cell [OF wf this] rg show ?thesis
    by (simp add: cells_in_range_def list_all_length)
qed

text \<open>
  C2. For a grid state of the data model (a rectangle, \<open>live_state > 1\<close>, no cell above
  \<open>live_state\<close>), \<open>step\<close> returns, and for every cell the new value is \<open>live_state\<close>
  exactly when the old value is \<open>live_state\<close> and the neighbour count is 2 or 3, or the
  old value is below \<open>live_state\<close> and the count is 3. The old value is the cell of the
  grid before the step, and the count is what the neighbour counter returns on the grid
  before the step, which is the number of the eight Moore neighbours of the cell that
  hold \<open>live_state\<close> there.
\<close>

theorem step_birth_survival:
  assumes "well_formed m" and "1 < live_state m" and "cells_in_range m"
    and "0 \<le> r" "r < num_rows m" "0 \<le> c" "c < num_cols m"
  shows "\<exists>m' cur n v. step m = Inr m'
           \<and> get_cell (cell_states m) r c = Inr cur
           \<and> cur = cell_states m ! nat r ! nat c
           \<and> count_live_neighbors m r c = Inr n
           \<and> n = live_neighbor_count m r c
           \<and> get_cell (cell_states m') r c = Inr v
           \<and> (v = live_state m \<longleftrightarrow>
                cur = live_state m \<and> (n = 2 \<or> n = 3) \<or> cur < live_state m \<and> n = 3)"
proof -
  let ?cur = "cell_states m ! nat r ! nat c"
  let ?n = "live_neighbor_count m r c"
  have rc: "0 \<le> r" "r < num_rows m" "0 \<le> c" "c < num_cols m" by fact+
  have le: "?cur \<le> live_state m" using cell_upper_bound [OF assms(1) assms(3) rc] .
  have "next_state m (nat r) (nat c) = live_state m \<longleftrightarrow>
        ?cur = live_state m \<and> (?n = 2 \<or> ?n = 3) \<or> ?cur < live_state m \<and> ?n = 3"
    using le assms(2) rc by (auto simp: next_state_def becomes_live_def Let_def)
  with step_cells [OF assms(1) rc] show ?thesis by blast
qed

theorem step_birth_survival_witness:
  "well_formed (blinker 2 0 False) \<and> cells_in_range (blinker 2 0 False)
   \<and> live_neighbor_count (blinker 2 0 False) 1 1 = 3
   \<and> count_live_neighbors (blinker 2 0 False) 1 1 = Inr 3
   \<and> live_neighbor_count (blinker 2 0 True) 0 0 = 2
   \<and> (\<exists>m'. step (blinker 2 0 False) = Inr m' \<and> get_cell (cell_states m') 1 1 = Inr 2)"
proof -
  let ?b = "blinker 2 0 False"
  have wf: "well_formed ?b" and rg: "cells_in_range ?b" and L: "1 < live_state ?b"
    by (simp_all add: blinker_def well_formed_def cells_in_range_def)
  have rc: "(0::int) \<le> 1" "1 < num_rows ?b" "(0::int) \<le> 1" "1 < num_cols ?b"
    by (simp_all add: blinker_def)
  have cur: "cell_states ?b ! nat 1 ! nat 1 = 0"
    by (simp add: blinker_def)
  have n: "live_neighbor_count ?b 1 1 = 3"
    by (simp add: blinker_def live_neighbor_count_def moore_offsets_def neighbor_counts_def
        resolve_axis_def)
  have n2: "live_neighbor_count (blinker 2 0 True) 0 0 = 2"
    by (simp add: blinker_def live_neighbor_count_def moore_offsets_def neighbor_counts_def
        resolve_axis_def)
  from step_birth_survival [OF wf L rg rc] obtain m' cur' n' v where
    run: "step ?b = Inr m'" and c: "cur' = cell_states ?b ! nat 1 ! nat 1"
    and k: "count_live_neighbors ?b 1 1 = Inr n'" and k': "n' = live_neighbor_count ?b 1 1"
    and v: "get_cell (cell_states m') 1 1 = Inr v"
    and rule: "v = live_state ?b \<longleftrightarrow>
       cur' = live_state ?b \<and> (n' = 2 \<or> n' = 3) \<or> cur' < live_state ?b \<and> n' = 3"
    by blast
  from c cur k' n have "cur' = 0" "n' = 3" by simp_all
  with rule have "v = 2" by (simp add: blinker_def)
  with run v wf rg k n n2 \<open>n' = 3\<close> show ?thesis by blast
qed

text \<open>
  C5. On a rectangular grid, a cell that the birth and survival rule does not set to
  \<open>live_state\<close> and whose value is not 0 gets \<open>max (value - 1) 1\<close> when trace is on,
  which is never 0, and gets 0 when trace is off. With \<open>live_state = 4\<close> a dying cell
  goes 4, 3, 2, 1, 1.
\<close>

theorem step_fade:
  assumes "well_formed m"
    and "0 \<le> r" "r < num_rows m" "0 \<le> c" "c < num_cols m"
  shows "(\<exists>m' cur n v. step m = Inr m'
            \<and> get_cell (cell_states m) r c = Inr cur
            \<and> count_live_neighbors m r c = Inr n
            \<and> get_cell (cell_states m') r c = Inr v
            \<and> (\<not> (cur = live_state m \<and> (n = 2 \<or> n = 3) \<or> cur < live_state m \<and> n = 3)
                 \<and> cur \<noteq> 0 \<longrightarrow>
               (if trace m then v = max (cur - 1) 1 \<and> v \<noteq> 0 else v = 0)))
         \<and> step (lone_cell 4 1 True) = Inr (lone_cell 3 0 True)
         \<and> step (lone_cell 3 0 True) = Inr (lone_cell 2 0 True)
         \<and> step (lone_cell 2 0 True) = Inr (lone_cell 1 0 True)
         \<and> step (lone_cell 1 0 True) = Inr (lone_cell 1 0 True)
         \<and> step (lone_cell 4 1 False) = Inr (lone_cell 0 0 False)"
proof -
  let ?cur = "cell_states m ! nat r ! nat c"
  let ?n = "live_neighbor_count m r c"
  have rc: "0 \<le> r" "r < num_rows m" "0 \<le> c" "c < num_cols m" by fact+
  have "\<not> (?cur = live_state m \<and> (?n = 2 \<or> ?n = 3) \<or> ?cur < live_state m \<and> ?n = 3)
          \<and> ?cur \<noteq> 0 \<longrightarrow>
        (if trace m then next_state m (nat r) (nat c) = max (?cur - 1) 1
                        \<and> next_state m (nat r) (nat c) \<noteq> 0
         else next_state m (nat r) (nat c) = 0)"
    using rc by (auto simp: next_state_def becomes_live_def Let_def)
  with step_cells [OF assms(1) rc] have general: "\<exists>m' cur n v. step m = Inr m'
            \<and> get_cell (cell_states m) r c = Inr cur
            \<and> count_live_neighbors m r c = Inr n
            \<and> get_cell (cell_states m') r c = Inr v
            \<and> (\<not> (cur = live_state m \<and> (n = 2 \<or> n = 3) \<or> cur < live_state m \<and> n = 3)
                 \<and> cur \<noteq> 0 \<longrightarrow>
               (if trace m then v = max (cur - 1) 1 \<and> v \<noteq> 0 else v = 0))"
    by blast
  have wf: "well_formed (lone_cell v p t)" for v p t
    by (simp add: well_formed_def lone_cell_def)
  have lone: "step (lone_cell v p t)
      = Inr (lone_cell (if t \<and> v \<noteq> 0 then max (v - 1) 1 else 0) 0 t)" for v p t
    by (simp only: step_eq [OF wf]) (simp add: lone_cell_def grid_eval)
  show ?thesis using general by (simp add: lone)
qed

theorem step_fade_witness:
  "well_formed (lone_cell 4 1 True)
   \<and> (\<exists>m'. step (lone_cell 4 1 True) = Inr m' \<and> get_cell (cell_states m') 0 0 = Inr 3)"
proof -
  let ?b = "lone_cell 4 1 True"
  have wf: "well_formed ?b"
    by (simp add: lone_cell_def well_formed_def)
  have rc: "(0::int) \<le> 0" "0 < num_rows ?b" "(0::int) \<le> 0" "0 < num_cols ?b"
    by (simp_all add: lone_cell_def)
  have cur: "get_cell (cell_states ?b) 0 0 = Inr 4"
    by (simp add: lone_cell_def get_cell_def py_index_def py_pos_def)
  have n: "count_live_neighbors ?b 0 0 = Inr 0"
    by (simp add: lone_cell_def count_live_neighbors_def neighbor_visit_def)
  from step_fade [OF wf rc] obtain m' cur' n' v where
    run: "step ?b = Inr m'" and c: "get_cell (cell_states ?b) 0 0 = Inr cur'"
    and k: "count_live_neighbors ?b 0 0 = Inr n'"
    and v: "get_cell (cell_states m') 0 0 = Inr v"
    and rule: "\<not> (cur' = live_state ?b \<and> (n' = 2 \<or> n' = 3) \<or> cur' < live_state ?b \<and> n' = 3)
                 \<and> cur' \<noteq> 0 \<longrightarrow>
               (if trace ?b then v = max (cur' - 1) 1 \<and> v \<noteq> 0 else v = 0)"
    by blast
  from c cur k n have "cur' = 4" "n' = 0" by simp_all
  with rule have "v = 3" by (simp add: lone_cell_def)
  with run v wf show ?thesis by blast
qed

section \<open>The claims on the neighbour counter\<close>

lemma two_corners_count:
  assumes "L \<noteq> 0"
  shows "count_live_neighbors (two_corners L True) 0 0 = Inr 1"
    and "count_live_neighbors (two_corners L False) 0 0 = Inr 0"
  using assms
  by (simp_all add: two_corners_def count_live_neighbors_def neighbor_visit_def py_mod_def
      get_cell_def py_index_def py_pos_def)

text \<open>
  C4. On a rectangular grid with at least one row and one column, the neighbour counter
  returns the number of the eight Moore offsets whose row and whose column both resolve
  (each on its own: inside the grid as it is, outside it skipped without wrap and reduced
  modulo the dimension with wrap, which lands inside the grid) to a cell that holds
  exactly \<open>live_state\<close>. On the 5 by 5 grid with live cells at (0,0) and (4,4) only, the
  count at (0,0) is 1 with wrap and 0 without.
\<close>

theorem neighbor_counter:
  assumes "well_formed m" and "0 < num_rows m" and "0 < num_cols m" and "L \<noteq> 0"
  shows "count_live_neighbors m row col = Inr (live_neighbor_count m row col)
         \<and> (\<forall>y. resolve_axis (wrap m) (num_rows m) x = Some y \<longrightarrow> 0 \<le> y \<and> y < num_rows m)
         \<and> (\<forall>y. resolve_axis (wrap m) (num_cols m) x = Some y \<longrightarrow> 0 \<le> y \<and> y < num_cols m)
         \<and> count_live_neighbors (two_corners L True) 0 0 = Inr 1
         \<and> count_live_neighbors (two_corners L False) 0 0 = Inr 0"
  using count_live_neighbors_eq [OF assms(1-3)] resolve_axis_range [OF assms(2)]
    resolve_axis_range [OF assms(3)] two_corners_count [OF assms(4)]
  by blast

theorem neighbor_counter_witness:
  "well_formed (two_corners 16 True)
   \<and> count_live_neighbors (two_corners 16 True) 0 0 = Inr 1
   \<and> live_neighbor_count (two_corners 16 True) 0 0 = 1
   \<and> resolve_axis True 5 (- 1) = Some 4
   \<and> count_live_neighbors (two_corners 16 False) 0 0 = Inr 0"
proof -
  let ?b = "two_corners 16 True"
  have wf: "well_formed ?b" and R: "0 < num_rows ?b" and C: "0 < num_cols ?b"
    by (simp_all add: two_corners_def well_formed_def)
  have L: "(16::int) \<noteq> 0" by simp
  note inst = neighbor_counter [OF wf R C L, of 0 0 "- 1"]
  have "live_neighbor_count ?b 0 0 = 1"
    by (simp add: two_corners_def live_neighbor_count_def moore_offsets_def neighbor_counts_def
        resolve_axis_def)
  moreover have "resolve_axis True 5 (- 1) = Some 4"
    by (simp add: resolve_axis_def)
  ultimately show ?thesis using inst wf by simp
qed

text \<open>
  C10. With wrap on, the eight offsets are resolved one by one, so several of them can
  land on the same cell and a cell can be its own neighbour: on a wrapped 1 by 1 grid whose
  only cell is live, the neighbour count of that cell is 8.
\<close>

theorem wrapped_single_cell_counts_itself:
  "count_live_neighbors
     \<lparr>num_rows = 1, num_cols = 1, live_state = L, wrap = True, trace = t,
      cell_states = [[L]], population = p, total_cells = n\<rparr> 0 0 = Inr 8"
  by (simp add: count_live_neighbors_def neighbor_visit_def py_mod_def get_cell_def
      py_index_def py_pos_def)

section \<open>The row of three is no oscillator on the 3 by 3 torus\<close>

text \<open>
  C3 (as the code has it). On the wrapped 3 by 3 grid every cell is a neighbour of every
  other, so a row of three live cells does not come back after two steps: the first step
  makes all nine cells live, and the second leaves none live (every cell is 0 with trace
  off and \<open>live_state - 1\<close> with trace on) and the population 0.
\<close>

theorem blinker_two_steps:
  assumes "1 < L" and "k < 3"
  shows "step (blinker L k t) = Inr (uniform3 L L 9 t)
         \<and> step (uniform3 L L 9 t) = Inr (uniform3 L (if t then L - 1 else 0) 0 t)"
  using blinker_step1 [OF assms] blinker_step2 [OF assms(1)] by simp

theorem blinker_two_steps_witness:
  "step (blinker 2 0 False) = Inr (uniform3 2 2 9 False)
   \<and> step (uniform3 2 2 9 False) = Inr (uniform3 2 0 0 False)"
  using blinker_two_steps [of 2 0 False] by simp

theorem blinker_not_period_two:
  "step (blinker 2 0 False) = Inr (uniform3 2 2 9 False)
   \<and> step (uniform3 2 2 9 False) = Inr (uniform3 2 0 0 False)
   \<and> cell_states (uniform3 2 0 0 False) = [[0, 0, 0], [0, 0, 0], [0, 0, 0]]
   \<and> cell_states (blinker 2 0 False) = [[2, 2, 2], [0, 0, 0], [0, 0, 0]]"
proof -
  have 1: "step (blinker 2 0 False) = Inr (uniform3 2 2 9 False)"
    using blinker_step1 [of 2 0 False] by simp
  have 2: "step (uniform3 2 2 9 False) = Inr (uniform3 2 0 0 False)"
    using blinker_step2 [of 2 False] by simp
  have "cell_states (uniform3 2 0 0 False) = [[0, 0, 0], [0, 0, 0], [0, 0, 0]]"
    "cell_states (blinker 2 0 False) = [[2, 2, 2], [0, 0, 0], [0, 0, 0]]"
    by (simp_all add: uniform3_def blinker_def)
  with 1 2 show ?thesis by blast
qed

section \<open>The invariant of the engine\<close>

subsection \<open>Live positions\<close>

lemma live_at_snoc:
  "live_at L (g @ [row]) = live_at L g \<union> Pair (length g) ` {j. j < length row \<and> row ! j = L}"
  by (auto simp: live_at_def nth_append less_Suc_eq)

lemma live_at_finite_card:
  "finite (live_at L g) \<and> card (live_at L g) = length (filter (\<lambda>v. v = L) (concat g))"
proof (induction g rule: rev_induct)
  case Nil
  show ?case by (simp add: live_at_def)
next
  case (snoc row g)
  let ?new = "Pair (length g) ` {j. j < length row \<and> row ! j = L}"
  have fin: "finite ?new" by simp
  have disj: "live_at L g \<inter> ?new = {}" by (auto simp: live_at_def)
  have "card ?new = card {j. j < length row \<and> row ! j = L}"
    by (rule card_image) (simp add: inj_on_def)
  also have "\<dots> = length (filter (\<lambda>v. v = L) row)"
    by (simp add: length_filter_conv_card)
  finally have new: "card ?new = length (filter (\<lambda>v. v = L) row)" .
  show ?case
    using snoc.IH fin disj new by (simp add: live_at_snoc card_Un_disjoint)
qed

lemma finite_live_at [simp]: "finite (live_at L g)"
  using live_at_finite_card by blast

lemma count_live_card: "count_live m = int (card (live_at (live_state m) (cell_states m)))"
  by (simp add: count_live_def live_at_finite_card)

lemma length_cell_update [simp]:
  "length (g[i := (g ! i)[j := v]] ! k) = length (g ! k)"
proof (cases "k = i")
  case True
  then show ?thesis by (cases "i < length g") (simp_all add: list_update_beyond)
next
  case False
  then show ?thesis by simp
qed

lemma nth_cell_update:
  "g[i := (g ! i)[j := v]] ! k ! l
   = (if k = i \<and> l = j \<and> i < length g \<and> j < length (g ! i) then v else g ! k ! l)"
proof (cases "k = i")
  case True
  then show ?thesis
    by (cases "i < length g"; cases "j < length (g ! i)")
      (simp_all add: nth_list_update list_update_beyond)
next
  case False
  then show ?thesis by simp
qed

lemma live_at_update:
  assumes "i < length g" "j < length (g ! i)"
  shows "live_at L (g[i := (g ! i)[j := v]])
         = (if v = L then insert (i, j) (live_at L g) else live_at L g - {(i, j)})"
  using assms by (auto simp: live_at_def nth_cell_update)

lemma grid_in_range_update:
  assumes "grid_in_range L g" "0 \<le> v" "v \<le> L"
  shows "grid_in_range L (g[i := (g ! i)[j := v]])"
  using assms unfolding grid_in_range_def
  by (simp add: nth_cell_update)

lemma dead_outside_update:
  assumes "dead_outside R C g" "v = 0 \<or> int i < R \<and> int j < C"
  shows "dead_outside R C (g[i := (g ! i)[j := v]])"
  using assms unfolding dead_outside_def
  by (auto simp: nth_cell_update)

lemma cells_in_range_iff: "cells_in_range m \<longleftrightarrow> grid_in_range (live_state m) (cell_states m)"
  unfolding cells_in_range_def grid_in_range_def list_all_length by blast

lemma live_at_subset_rect:
  assumes "dead_outside R C g" "L \<noteq> 0"
  shows "live_at L g \<subseteq> {(i, j). int i < R \<and> int j < C}"
  using assms by (auto simp: dead_outside_def live_at_def)

subsection \<open>Frames and single writes\<close>

lemma frame_refl [simp]: "frame m m"
  by (simp add: frame_def)

lemma frame_update [simp]:
  "frame m (m\<lparr>cell_states := g\<rparr>)" "frame m (m\<lparr>population := p\<rparr>)"
  "frame m (m\<lparr>cell_states := g, population := p\<rparr>)"
  by (simp_all add: frame_def)

lemma frame_trans: "frame m t \<Longrightarrow> frame t t' \<Longrightarrow> frame m t'"
  by (simp add: frame_def)

lemma frame_eq:
  "frame m m' \<Longrightarrow> m' = m\<lparr>cell_states := cell_states m', population := population m'\<rparr>"
  by (simp add: frame_def)

lemma write_cell_card:
  assumes "i < length g" "j < length (g ! i)"
  shows "int (card (live_at L (g[i := (g ! i)[j := v]])))
         = int (card (live_at L g)) - (if g ! i ! j = L then 1 else 0) + (if v = L then 1 else 0)"
proof -
  have mem: "(i, j) \<in> live_at L g \<longleftrightarrow> g ! i ! j = L"
    using assms by (simp add: live_at_def)
  show ?thesis
  proof (cases "g ! i ! j = L")
    case True
    then have in_set: "(i, j) \<in> live_at L g" using mem by simp
    then have pos: "0 < card (live_at L g)" by (auto simp: card_gt_0_iff)
    show ?thesis
    proof (cases "v = L")
      case True
      then show ?thesis using in_set \<open>g ! i ! j = L\<close>
        by (simp add: live_at_update [OF assms] insert_absorb)
    next
      case False
      then show ?thesis using in_set pos \<open>g ! i ! j = L\<close>
        by (simp add: live_at_update [OF assms] card_Diff_singleton of_nat_diff)
    qed
  next
    case False
    then have out: "(i, j) \<notin> live_at L g" using mem by simp
    then show ?thesis using False
      by (simp add: live_at_update [OF assms])
  qed
qed

lemma engine_inv_write:
  assumes inv: "engine_inv m" and valid: "i < length (cell_states m)" "j < length (cell_states m ! i)"
    and v: "0 \<le> v" "v \<le> live_state m" and inside: "v = 0 \<or> int i < num_rows m \<and> int j < num_cols m"
    and p: "p = population m - (if cell_states m ! i ! j = live_state m then 1 else 0)
                + (if v = live_state m then 1 else 0)"
  shows "engine_inv (m\<lparr>cell_states := (cell_states m)[i := (cell_states m ! i)[j := v]],
                       population := p\<rparr>)"
  using inv v p
  by (simp add: engine_inv_def grid_in_range_update dead_outside_update [OF _ inside]
      write_cell_card [OF valid])

subsection \<open>Point edits and toggles keep the invariant\<close>

lemma set_cell_state_keeps:
  assumes inv: "engine_inv m" and rc: "0 \<le> r" "r < num_rows m" "0 \<le> c" "c < num_cols m"
    and run: "set_cell_state b (r, c) m = Inr m'"
  shows "frame m m' \<and> engine_inv m'"
proof -
  obtain i j where ij: "r = int i" "c = int j"
    using rc by (metis nat_0_le)
  have L: "1 < live_state m" using inv by (simp add: engine_inv_def)
  have inside: "v = 0 \<or> int i < num_rows m \<and> int j < num_cols m" for v :: int
    using rc ij by simp
  let ?g = "cell_states m"
  show ?thesis
  proof (cases "i < length ?g \<and> j < length (?g ! i)")
    case False
    then have "get_cell ?g r c = Inl IndexError" by (simp add: ij get_cell_int)
    then have "set_cell_state b (r, c) m = Inl IndexError"
      by (simp add: set_cell_state_def)
    with run show ?thesis by simp
  next
    case True
    then have valid: "i < length ?g" "j < length (?g ! i)" by simp_all
    have get: "get_cell ?g r c = Inr (?g ! i ! j)" using True by (simp add: ij get_cell_int)
    have set: "set_cell ?g r c v = Inr (?g[i := (?g ! i)[j := v]])" for v
      using True by (simp add: ij set_cell_int)
    show ?thesis
    proof (cases b)
      case True
      show ?thesis
      proof (cases "?g ! i ! j = live_state m")
        case True
        with \<open>b\<close> run get have "m' = m" by (simp add: set_cell_state_def)
        then show ?thesis using inv by simp
      next
        case False
        with \<open>b\<close> run get set have m': "m' = m\<lparr>cell_states := ?g[i := (?g ! i)[j := live_state m]],
            population := population m + 1\<rparr>"
          by (simp add: set_cell_state_def)
        have "engine_inv m'" unfolding m'
          using False L by (intro engine_inv_write [OF inv valid _ _ inside]) simp_all
        then show ?thesis by (simp add: m')
      qed
    next
      case False
      note nb = False
      show ?thesis
      proof (cases "?g ! i ! j = 0")
        case True
        with nb run get have "m' = m" by (simp add: set_cell_state_def)
        then show ?thesis using inv by simp
      next
        case False
        with nb run get set have m': "m' = m\<lparr>cell_states := ?g[i := (?g ! i)[j := 0]],
            population := population m - (if ?g ! i ! j = live_state m then 1 else 0)\<rparr>"
          by (auto simp: set_cell_state_def Let_def split: if_splits)
        have "engine_inv m'" unfolding m'
          using L by (intro engine_inv_write [OF inv valid _ _ inside]) simp_all
        then show ?thesis by (simp add: m')
      qed
    qed
  qed
qed

lemma set_cells_state_keeps:
  assumes inv: "engine_inv m" and rc: "list_all (in_grid m) cells"
    and run: "set_cells_state cells b m = Inr m'"
  shows "frame m m' \<and> engine_inv m'"
proof -
  have "for_each (set_cell_state b) cells m = Inr m'"
    using run by (simp add: set_cells_state_def)
  then show ?thesis
  proof (rule for_each_inv [where P = "\<lambda>ys t. frame m t \<and> engine_inv t"])
    show "frame m m \<and> engine_inv m" using inv by simp
  next
    fix ys x zs t t'
    assume split: "cells = ys @ x # zs" and t: "frame m t \<and> engine_inv t"
      and body: "set_cell_state b x t = Inr t'"
    obtain r c where x: "x = (r, c)" by (cases x)
    have "in_grid m x" using rc split by (simp add: list_all_iff)
    then have "0 \<le> r" "r < num_rows t" "0 \<le> c" "c < num_cols t"
      using t by (simp_all add: in_grid_def x frame_def)
    from set_cell_state_keeps [OF _ this body [unfolded x]] t
    show "frame m t' \<and> engine_inv t'" by (blast intro: frame_trans)
  qed
qed

lemma fade_out_cell_keeps:
  assumes inv: "engine_inv m" and run: "fade_out_cell (int i) (int j) m = Inr m'"
  shows "frame m m' \<and> engine_inv m'"
proof -
  let ?g = "cell_states m"
  have L: "1 < live_state m" using inv by (simp add: engine_inv_def)
  show ?thesis
  proof (cases "i < length ?g \<and> j < length (?g ! i)")
    case False
    then have "get_cell ?g (int i) (int j) = Inl IndexError"
      by (simp add: get_cell_int)
    then have "fade_out_cell (int i) (int j) m = Inl IndexError"
      by (simp add: fade_out_cell_def)
    with run show ?thesis by simp
  next
    case True
    then have valid: "i < length ?g" "j < length (?g ! i)" by simp_all
    show ?thesis
    proof (cases "?g ! i ! j < live_state m")
      case True
      with run valid have m': "m' = m\<lparr>cell_states := ?g[i := (?g ! i)[j := 0]]\<rparr>"
        by (simp add: fade_out_cell_def get_cell_int set_cell_int)
      have "engine_inv (m\<lparr>cell_states := ?g[i := (?g ! i)[j := 0]], population := population m\<rparr>)"
        using True L by (intro engine_inv_write [OF inv valid]) simp_all
      then show ?thesis by (simp add: m')
    next
      case False
      with run valid have "m' = m"
        by (simp add: fade_out_cell_def get_cell_int)
      then show ?thesis using inv by simp
    qed
  qed
qed

lemma cell_loop_keeps:
  assumes body: "\<And>i j t t'. engine_inv t \<Longrightarrow> b (int i) (int j) t = Inr t'
                   \<Longrightarrow> frame t t' \<and> engine_inv t'"
    and inv: "engine_inv m"
    and run: "for_each (\<lambda>row. for_each (\<lambda>col. b row col) (py_range C)) (py_range R) m = Inr m'"
  shows "frame m m' \<and> engine_inv m'"
proof -
  have "for_each (\<lambda>p. b (int (fst p)) (int (snd p))) (List.product [0..<nat R] [0..<nat C]) m
        = Inr m'"
    using run by (simp add: nat_loops)
  then show ?thesis
  proof (rule for_each_inv [where P = "\<lambda>ys t. frame m t \<and> engine_inv t"])
    show "frame m m \<and> engine_inv m" using inv by simp
  next
    fix ys x zs t t'
    assume "frame m t \<and> engine_inv t" "b (int (fst x)) (int (snd x)) t = Inr t'"
    with body [of t "fst x" "snd x" t'] show "frame m t' \<and> engine_inv t'"
      by (blast intro: frame_trans)
  qed
qed

lemma toggle_wrap_keeps: "engine_inv m \<Longrightarrow> engine_inv (toggle_wrap m)"
  by (simp add: engine_inv_def toggle_wrap_def)

lemma toggle_trace_keeps:
  assumes inv: "engine_inv m" and run: "toggle_trace m = Inr m'"
  shows "engine_inv m'"
proof (cases "trace m")
  case True
  let ?m1 = "m\<lparr>trace := False\<rparr>"
  have inv1: "engine_inv ?m1" using inv by (simp add: engine_inv_def)
  have "for_each (\<lambda>row. for_each (\<lambda>col. fade_out_cell row col) (py_range (num_cols ?m1)))
          (py_range (num_rows ?m1)) ?m1 = Inr m'"
    using run True by (simp add: toggle_trace_def Let_def)
  from cell_loop_keeps [where b = fade_out_cell, OF fade_out_cell_keeps inv1 this]
  show ?thesis by simp
next
  case False
  with run have "m' = m\<lparr>trace := True\<rparr>" by (simp add: toggle_trace_def Let_def)
  then show ?thesis using inv by (simp add: engine_inv_def)
qed

lemma Model_init_inv:
  assumes "1 < L"
  shows "engine_inv (Model_init R C L w t)"
proof -
  let ?g = "map (\<lambda>_. zeros C) (py_range R)"
  have cell: "?g ! i ! j = 0" if "i < length ?g" "j < length (?g ! i)" for i j
    using that by (simp add: zeros_def py_range_def)
  have "live_at L ?g = {}" using assms cell by (auto simp: live_at_def)
  moreover have "grid_in_range L ?g" using assms cell by (auto simp: grid_in_range_def)
  moreover have "dead_outside R C ?g" using cell by (auto simp: dead_outside_def)
  ultimately show ?thesis using assms by (simp add: engine_inv_def Model_init_def)
qed

subsection \<open>Clear, randomize and step keep the invariant\<close>

lemma in_product_iff:
  "(i, j) \<in> set (List.product [0..<nat R] [0..<nat C]) \<longleftrightarrow> int i < R \<and> int j < C"
  by auto

lemma zero_grid:
  assumes "i < length (map (\<lambda>_. zeros C) (py_range R))"
    and "j < length (map (\<lambda>_. zeros C) (py_range R) ! i)"
  shows "map (\<lambda>_. zeros C) (py_range R) ! i ! j = 0"
  using assms by (simp add: zeros_def py_range_def)

lemma all_dead_inv:
  assumes L: "1 < live_state m"
    and dead: "\<And>i j. i < length (cell_states m) \<Longrightarrow> j < length (cell_states m ! i)
                 \<Longrightarrow> cell_states m ! i ! j = 0"
  shows "engine_inv (m\<lparr>population := 0\<rparr>)"
proof -
  have "live_at (live_state m) (cell_states m) = {}"
    using L dead by (auto simp: live_at_def)
  moreover have "grid_in_range (live_state m) (cell_states m)"
    using L dead by (auto simp: grid_in_range_def)
  moreover have "dead_outside (num_rows m) (num_cols m) (cell_states m)"
    using dead by (auto simp: dead_outside_def)
  ultimately show ?thesis using L by (simp add: engine_inv_def)
qed

lemma clear_cell_keeps:
  assumes inv: "clear_inv m ys t" and run: "clear_cell (int i) (int j) t = Inr t'"
  shows "clear_inv m (ys @ [(i, j)]) t'"
proof -
  let ?g = "cell_states t"
  have valid: "i < length ?g \<and> j < length (?g ! i)"
    using run by (auto simp: clear_cell_def set_cell_int split: if_splits)
  with run have t': "t' = t\<lparr>cell_states := ?g[i := (?g ! i)[j := 0]]\<rparr>"
    by (simp add: clear_cell_def set_cell_int)
  show ?thesis using inv unfolding clear_inv_def t'
    by (auto simp: nth_cell_update frame_def split: if_splits)
qed

lemma clear_keeps:
  assumes inv: "engine_inv m" and run: "clear m = Inr m'"
  shows "engine_inv m'"
proof -
  let ?xs = "List.product [0..<nat (num_rows m)] [0..<nat (num_cols m)]"
  from run obtain t where loop: "for_each (\<lambda>p. clear_cell (int (fst p)) (int (snd p))) ?xs m = Inr t"
    and m': "m' = t\<lparr>population := 0\<rparr>"
    by (auto simp: clear_def nat_loops rbind_eq_Inr)
  have "clear_inv m ?xs t"
  proof (rule for_each_inv [OF loop, where P = "clear_inv m"])
    show "clear_inv m [] m" using inv by (simp add: clear_inv_def engine_inv_def dead_outside_def)
  next
    fix ys x zs s s'
    assume "clear_inv m ys s" "clear_cell (int (fst x)) (int (snd x)) s = Inr s'"
    from clear_cell_keeps [OF this] show "clear_inv m (ys @ [x]) s'" by simp
  qed
  then have fr: "frame m t"
    and dead: "\<And>i j. i < length (cell_states t) \<Longrightarrow> j < length (cell_states t ! i)
                 \<Longrightarrow> cell_states t ! i ! j = 0"
    unfolding clear_inv_def using in_product_iff by blast+
  have "1 < live_state t" using inv fr by (simp add: engine_inv_def frame_def)
  from all_dead_inv [OF this dead] show ?thesis by (simp add: m')
qed

lemma randomize_cell_keeps:
  assumes L: "1 < live_state m" and inv: "rand_inv m ys s"
    and new: "(i, j) \<notin> set ys" and inside: "int i < num_rows m" "int j < num_cols m"
    and run: "randomize_cell bits (int i) (int j) s = Inr s'"
  shows "rand_inv m (ys @ [(i, j)]) s'"
proof -
  obtain t k where s: "s = (t, k)" by (cases s)
  let ?g = "cell_states t"
  let ?L = "live_state m"
  have fr: "frame m t" and Lt: "live_state t = ?L" using inv by (simp_all add: rand_inv_def s frame_def)
  have valid: "i < length ?g" "j < length (?g ! i)"
    using run by (auto simp: s randomize_cell_def set_cell_int split: if_splits)
  have fin: "finite (live_at ?L ?g \<inter> set ys)" by simp
  show ?thesis
  proof (cases "bits k")
    case True
    with run valid have s': "s' = (t\<lparr>cell_states := ?g[i := (?g ! i)[j := ?L]],
        population := population t + 1\<rparr>, Suc k)"
      by (simp add: s randomize_cell_def set_cell_int Lt)
    have "live_at ?L (?g[i := (?g ! i)[j := ?L]]) \<inter> set (ys @ [(i, j)])
          = insert (i, j) (live_at ?L ?g \<inter> set ys)"
      by (auto simp: live_at_update [OF valid])
    moreover have "(i, j) \<notin> live_at ?L ?g \<inter> set ys" using new by simp
    ultimately have "int (card (live_at ?L (?g[i := (?g ! i)[j := ?L]]) \<inter> set (ys @ [(i, j)])))
          = int (card (live_at ?L ?g \<inter> set ys)) + 1"
      using fin by simp
    then show ?thesis using inv L inside unfolding rand_inv_def s s'
      by (simp add: grid_in_range_update dead_outside_update frame_def)
  next
    case False
    with run valid have s': "s' = (t\<lparr>cell_states := ?g[i := (?g ! i)[j := 0]]\<rparr>, Suc k)"
      by (simp add: s randomize_cell_def set_cell_int)
    have "live_at ?L (?g[i := (?g ! i)[j := 0]]) \<inter> set (ys @ [(i, j)])
          = live_at ?L ?g \<inter> set ys"
      using L new by (auto simp: live_at_update [OF valid])
    then show ?thesis using inv L unfolding rand_inv_def s s'
      by (simp add: grid_in_range_update dead_outside_update frame_def)
  qed
qed

lemma randomize_keeps:
  assumes inv: "engine_inv m" and run: "randomize bits m = Inr m'"
  shows "engine_inv m'"
proof -
  let ?xs = "List.product [0..<nat (num_rows m)] [0..<nat (num_cols m)]"
  let ?L = "live_state m"
  have L: "1 < ?L" using inv by (simp add: engine_inv_def)
  from run have "\<exists>s. for_each (\<lambda>p. randomize_cell bits (int (fst p)) (int (snd p))) ?xs
                  (m\<lparr>population := 0\<rparr>, 0) = Inr s \<and> fst s = m'"
    by (simp add: randomize_def nat_loops rbind_eq_Inr)
  then obtain k where loop:
    "for_each (\<lambda>p. randomize_cell bits (int (fst p)) (int (snd p))) ?xs (m\<lparr>population := 0\<rparr>, 0)
     = Inr (m', k)"
    by (metis prod.collapse)
  have "rand_inv m ?xs (m', k)"
  proof (rule for_each_inv [OF loop, where P = "rand_inv m"])
    show "rand_inv m [] (m\<lparr>population := 0\<rparr>, 0)"
      using inv by (simp add: rand_inv_def engine_inv_def)
  next
    fix ys x zs s s'
    assume split: "?xs = ys @ x # zs" and s: "rand_inv m ys s"
      and body: "randomize_cell bits (int (fst x)) (int (snd x)) s = Inr s'"
    note sp = split_product [OF split]
    have "rand_inv m (ys @ [(fst x, snd x)]) s'"
      using sp by (intro randomize_cell_keeps [OF L s _ _ _ body]) simp_all
    then show "rand_inv m (ys @ [x]) s'" by simp
  qed
  then have fr: "frame m m'" and rg: "grid_in_range ?L (cell_states m')"
    and out: "dead_outside (num_rows m) (num_cols m) (cell_states m')"
    and pop: "population m' = int (card (live_at ?L (cell_states m') \<inter> set ?xs))"
    by (simp_all add: rand_inv_def)
  have "?L \<noteq> 0" using L by simp
  have "live_at ?L (cell_states m') \<subseteq> set ?xs"
  proof
    fix x assume x: "x \<in> live_at ?L (cell_states m')"
    obtain i j where ij: "x = (i, j)" by (cases x)
    from live_at_subset_rect [OF out \<open>?L \<noteq> 0\<close>] x
    have "int i < num_rows m \<and> int j < num_cols m" unfolding ij by blast
    then show "x \<in> set ?xs" unfolding ij by (simp only: in_product_iff)
  qed
  then have "live_at ?L (cell_states m') \<inter> set ?xs = live_at ?L (cell_states m')" by blast
  with pop rg out fr L show ?thesis by (simp add: engine_inv_def frame_def)
qed

lemma step_keeps_write:
  assumes inv: "step_keeps_inv L ys (buf, p)" and new: "(i, j) \<notin> set ys"
    and run: "set_cell buf (int i) (int j) v = Inr buf'"
    and v: "0 \<le> v" "v \<le> L" and L: "L \<noteq> 0"
  shows "step_keeps_inv L (ys @ [(i, j)]) (buf', p + (if v = L then 1 else 0))"
proof -
  have valid: "i < length buf" "j < length (buf ! i)"
    using run by (auto simp: set_cell_int split: if_splits)
  with run have buf': "buf' = buf[i := (buf ! i)[j := v]]" by (simp add: set_cell_int)
  have "buf ! i ! j = 0" using inv new valid unfolding step_keeps_inv_def by auto
  then have "buf ! i ! j \<noteq> L" using L by simp
  then have "int (card (live_at L buf')) = int (card (live_at L buf)) + (if v = L then 1 else 0)"
    unfolding buf' by (simp add: write_cell_card [OF valid])
  then show ?thesis using inv v unfolding step_keeps_inv_def buf'
    by (auto simp: grid_in_range_update nth_cell_update)
qed

lemma step_cell_keeps:
  assumes inv: "engine_inv m" and s: "step_keeps_inv (live_state m) ys s"
    and new: "(i, j) \<notin> set ys"
    and run: "step_cell m (int i) (int j) s = Inr s'"
  shows "step_keeps_inv (live_state m) (ys @ [(i, j)]) s'"
proof -
  obtain buf p where sp: "s = (buf, p)" by (cases s)
  let ?g = "cell_states m"
  let ?L = "live_state m"
  have L: "1 < ?L" and rg: "grid_in_range ?L ?g" using inv by (simp_all add: engine_inv_def)
  from run obtain cs where get: "get_cell ?g (int i) (int j) = Inr cs"
    by (auto simp: sp step_cell_def rbind_eq_Inr)
  then have "i < length ?g \<and> j < length (?g ! i) \<and> cs = ?g ! i ! j"
    by (auto simp: get_cell_int split: if_splits)
  then have cs: "0 \<le> cs" "cs \<le> ?L" using rg by (auto simp: grid_in_range_def)
  from run get obtain n where n: "count_live_neighbors m (int i) (int j) = Inr n"
    by (auto simp: sp step_cell_def rbind_eq_Inr)
  let ?rule = "cs = ?L \<and> 2 \<le> n \<and> n \<le> 3 \<or> cs < ?L \<and> n = 3"
  show ?thesis
  proof (cases ?rule)
    case True
    with run get n obtain buf' where w: "set_cell buf (int i) (int j) ?L = Inr buf'"
      and s': "s' = (buf', p + 1)"
      by (auto simp: sp step_cell_def rbind_eq_Inr)
    from step_keeps_write [OF s [unfolded sp] new w] L show ?thesis by (simp add: s')
  next
    case False
    note no_rule = False
    show ?thesis
    proof (cases "trace m \<and> cs \<noteq> 0")
      case True
      with run get n no_rule obtain buf' where
        w: "set_cell buf (int i) (int j) (max (cs - 1) 1) = Inr buf'" and s': "s' = (buf', p)"
        by (auto simp: sp step_cell_def rbind_eq_Inr)
      have "0 \<le> max (cs - 1) 1" "max (cs - 1) 1 \<le> ?L" "max (cs - 1) 1 \<noteq> ?L"
        using cs L by simp_all
      with step_keeps_write [OF s [unfolded sp] new w] L show ?thesis by (simp add: s')
    next
      case False
      with run get n no_rule have "s' = (buf, p)"
        by (auto simp: sp step_cell_def)
      then show ?thesis using s unfolding sp step_keeps_inv_def by auto
    qed
  qed
qed

lemma step_keeps:
  assumes inv: "engine_inv m" and run: "step m = Inr m'"
  shows "engine_inv m'"
proof -
  let ?xs = "List.product [0..<nat (num_rows m)] [0..<nat (num_cols m)]"
  let ?L = "live_state m"
  let ?s0 = "(map (\<lambda>_. zeros (num_cols m)) (py_range (num_rows m)), 0::int)"
  have L: "1 < ?L" using inv by (simp add: engine_inv_def)
  from run obtain buf p where
    loop: "for_each (\<lambda>q. step_cell m (int (fst q)) (int (snd q))) ?xs ?s0 = Inr (buf, p)"
    and m': "m' = m\<lparr>cell_states := buf, population := p\<rparr>"
    by (auto simp: step_def nat_loops rbind_eq_Inr)
  have "step_keeps_inv ?L ?xs (buf, p)"
  proof (rule for_each_inv [OF loop, where P = "step_keeps_inv ?L"])
    have "live_at ?L (fst ?s0) = {}" using L zero_grid by (auto simp: live_at_def)
    then show "step_keeps_inv ?L [] ?s0"
      using L zero_grid by (auto simp: step_keeps_inv_def grid_in_range_def)
  next
    fix ys x zs s s'
    assume split: "?xs = ys @ x # zs" and s: "step_keeps_inv ?L ys s"
      and body: "step_cell m (int (fst x)) (int (snd x)) s = Inr s'"
    note sp = split_product [OF split]
    have "step_keeps_inv ?L (ys @ [(fst x, snd x)]) s'"
      using sp by (intro step_cell_keeps [OF inv s _ body]) simp
    then show "step_keeps_inv ?L (ys @ [x]) s'" by simp
  qed
  then have rg: "grid_in_range ?L buf" and pop: "p = int (card (live_at ?L buf))"
    and nz: "\<And>i j. i < length buf \<Longrightarrow> j < length (buf ! i) \<Longrightarrow> buf ! i ! j \<noteq> 0
               \<Longrightarrow> (i, j) \<in> set ?xs"
    by (simp_all add: step_keeps_inv_def)
  have "dead_outside (num_rows m) (num_cols m) buf"
    unfolding dead_outside_def using nz in_product_iff by blast
  with rg pop L show ?thesis by (simp add: m' engine_inv_def)
qed

subsection \<open>The loops of the resize, in closed form\<close>

lemma py_range_from_length [simp]: "length (py_range_from a b) = nat (b - a)"
  by (simp add: py_range_from_def)

lemma py_range_down_nat:
  assumes "- 1 \<le> b"
  shows "py_range_down a b = map int (rev [nat (b + 1)..<nat (a + 1)])"
proof (rule nth_equalityI)
  show "length (py_range_down a b) = length (map int (rev [nat (b + 1)..<nat (a + 1)]))"
    using assms by (simp add: py_range_down_def)
next
  fix k assume "k < length (py_range_down a b)"
  then have k: "k < nat (a - b)" by (simp add: py_range_down_def)
  then have k': "k < length [nat (b + 1)..<nat (a + 1)]" using assms by simp
  have "rev [nat (b + 1)..<nat (a + 1)] ! k = nat (a + 1) - Suc k"
    using k' by (simp add: rev_nth)
  then show "py_range_down a b ! k = map int (rev [nat (b + 1)..<nat (a + 1)]) ! k"
    using k k' assms by (simp add: py_range_down_def) 
qed

lemma py_take_nat: "0 \<le> n \<Longrightarrow> py_take n xs = take (nat n) xs"
  by (simp add: py_take_def)

lemma fold_append_rows:
  "fold (\<lambda>_ m'. m'\<lparr>cell_states := cell_states m' @ [z]\<rparr>) xs m
   = m\<lparr>cell_states := cell_states m @ replicate (length xs) z\<rparr>"
proof (induction xs arbitrary: m)
  case Nil
  show ?case by simp
next
  case (Cons x xs)
  show ?case by (simp add: Cons.IH replicate_app_Cons_same)
qed

lemma scan_loop:
  "for_each (\<lambda>p. drop_scan (int (fst p)) (int (snd p))) ps m
   = (if list_all (cell_ok (cell_states m)) ps
      then Inr (m\<lparr>population := population m - int (length (filter (live_cell m) ps))\<rparr>)
      else Inl IndexError)"
proof (induction ps arbitrary: m)
  case Nil
  show ?case by simp
next
  case (Cons p ps)
  let ?f = "\<lambda>p. drop_scan (int (fst p)) (int (snd p))"
  have unfold: "for_each ?f (p # ps) m = rbind (?f p m) (for_each ?f ps)" by simp
  show ?case
  proof (cases "cell_ok (cell_states m) p")
    case False
    then have "get_cell (cell_states m) (int (fst p)) (int (snd p)) = Inl IndexError"
      by (simp add: get_cell_int cell_ok_def)
    then have "?f p m = Inl IndexError" by (simp add: drop_scan_def)
    then show ?thesis using False unfolding unfold by simp
  next
    case True
    then have get: "get_cell (cell_states m) (int (fst p)) (int (snd p))
                    = Inr (cell_states m ! fst p ! snd p)"
      by (simp add: get_cell_int cell_ok_def)
    show ?thesis
    proof (cases "live_cell m p")
      case True
      let ?m1 = "m\<lparr>population := population m - 1\<rparr>"
      have step: "?f p m = Inr ?m1" using True by (simp add: drop_scan_def get live_cell_def)
      have same: "live_cell ?m1 = live_cell m" by (simp add: live_cell_def fun_eq_iff)
      show ?thesis unfolding unfold step rbind_Inr Cons.IH
        using True \<open>cell_ok (cell_states m) p\<close> by (simp add: same)
    next
      case False
      have step: "?f p m = Inr m" using False by (simp add: drop_scan_def get live_cell_def)
      show ?thesis unfolding unfold step rbind_Inr Cons.IH
        using False \<open>cell_ok (cell_states m) p\<close> by simp
    qed
  qed
qed

lemma length_on_rows [simp]: "length (on_rows S f g) = length g"
  by (simp add: on_rows_def)

lemma nth_on_rows:
  "i < length g \<Longrightarrow> on_rows S f g ! i = (if i \<in> S then f (g ! i) else g ! i)"
  by (simp add: on_rows_def)

lemma on_rows_empty [simp]: "on_rows {} f g = g"
  by (simp add: on_rows_def map_nth)

lemma on_rows_insert:
  assumes "i \<notin> S" "i < length g"
  shows "on_rows S f (g[i := f (g ! i)]) = on_rows (insert i S) f g"
  using assms by (auto simp: on_rows_def nth_list_update)

lemma extend_row_eq:
  "extend_row k (int i) m
   = (if i < length (cell_states m)
      then Inr (m\<lparr>cell_states := (cell_states m)[i := cell_states m ! i @ zeros k]\<rparr>)
      else Inl IndexError)"
  by (simp add: extend_row_def)

lemma extend_loop:
  assumes "distinct rows"
  shows "for_each (\<lambda>i. extend_row k (int i)) rows m
         = (if list_all (\<lambda>i. i < length (cell_states m)) rows
            then Inr (m\<lparr>cell_states := on_rows (set rows) (\<lambda>r. r @ zeros k) (cell_states m)\<rparr>)
            else Inl IndexError)"
  using assms
proof (induction rows arbitrary: m)
  case Nil
  show ?case by simp
next
  case (Cons i rows)
  let ?f = "\<lambda>i. extend_row k (int i)"
  let ?g = "cell_states m"
  have unfold: "for_each ?f (i # rows) m = rbind (?f i m) (for_each ?f rows)" by simp
  from Cons.prems have new: "i \<notin> set rows" and dist: "distinct rows" by simp_all
  show ?case
  proof (cases "i < length ?g")
    case False
    then show ?thesis unfolding unfold by (simp add: extend_row_eq)
  next
    case True
    let ?m1 = "m\<lparr>cell_states := ?g[i := ?g ! i @ zeros k]\<rparr>"
    have step: "?f i m = Inr ?m1" using True by (simp add: extend_row_eq)
    have grid: "on_rows (set rows) (\<lambda>r. r @ zeros k) (cell_states ?m1)
                = on_rows (set (i # rows)) (\<lambda>r. r @ zeros k) ?g"
      using on_rows_insert [OF new True, of "\<lambda>r. r @ zeros k"] by simp
    show ?thesis unfolding unfold step rbind_Inr Cons.IH [OF dist] grid
      using True by simp
  qed
qed

lemma column_scan:
  "for_each (\<lambda>col. drop_scan (int i) col) (map int cols) m
   = for_each (\<lambda>p. drop_scan (int (fst p)) (int (snd p))) (map (Pair i) cols) m"
  by (simp add: for_each_map)

lemma shrink_row_eq:
  assumes nc: "0 \<le> nc" "nc < oc"
  shows "shrink_row oc nc (int i) m
         = (if i < length (cell_states m) \<and> nat oc \<le> length (cell_states m ! i)
            then Inr (m\<lparr>population := population m
                          - int (length (filter (live_cell m)
                                   (map (Pair i) (rev [nat nc..<nat oc])))),
                        cell_states := (cell_states m)[i := take (nat nc) (cell_states m ! i)]\<rparr>)
            else Inl IndexError)"
proof -
  let ?g = "cell_states m"
  let ?cols = "rev [nat nc..<nat oc]"
  have range: "py_range_down (oc - 1) (nc - 1) = map int ?cols"
    using nc py_range_down_nat [of "nc - 1" "oc - 1"] by simp
  have ne: "nat nc < nat oc" using nc by simp
  have ok: "list_all (cell_ok ?g) (map (Pair i) ?cols)
            \<longleftrightarrow> i < length ?g \<and> nat oc \<le> length (?g ! i)"
  proof
    assume all: "list_all (cell_ok ?g) (map (Pair i) ?cols)"
    have "nat nc \<le> nat oc - 1 \<and> nat oc - 1 < nat oc" using ne by linarith
    then have "nat oc - 1 \<in> set ?cols" by simp
    with all have "cell_ok ?g (i, nat oc - 1)" by (simp add: list_all_iff)
    then have "i < length ?g" "nat oc - 1 < length (?g ! i)" by (simp_all add: cell_ok_def)
    with ne show "i < length ?g \<and> nat oc \<le> length (?g ! i)" by linarith
  next
    assume "i < length ?g \<and> nat oc \<le> length (?g ! i)"
    then show "list_all (cell_ok ?g) (map (Pair i) ?cols)"
      by (simp add: list_all_iff cell_ok_def)
  qed
  show ?thesis
    unfolding shrink_row_def range column_scan scan_loop ok
    using nc by (simp add: py_take_nat)
qed

lemma shrink_loop:
  assumes nc: "0 \<le> nc" "nc < oc" and dist: "distinct rows"
  shows "for_each (\<lambda>i. shrink_row oc nc (int i)) rows m
         = (if list_all (\<lambda>i. i < length (cell_states m) \<and> nat oc \<le> length (cell_states m ! i)) rows
            then Inr (m\<lparr>population := population m
                          - int (length (filter (live_cell m)
                                   (List.product rows (rev [nat nc..<nat oc])))),
                        cell_states := on_rows (set rows) (take (nat nc)) (cell_states m)\<rparr>)
            else Inl IndexError)"
  using dist
proof (induction rows arbitrary: m)
  case Nil
  show ?case by simp
next
  case (Cons i rows)
  let ?f = "\<lambda>i. shrink_row oc nc (int i)"
  let ?g = "cell_states m"
  let ?cols = "rev [nat nc..<nat oc]"
  have unfold: "for_each ?f (i # rows) m = rbind (?f i m) (for_each ?f rows)" by simp
  from Cons.prems have new: "i \<notin> set rows" and dist: "distinct rows" by simp_all
  show ?case
  proof (cases "i < length ?g \<and> nat oc \<le> length (?g ! i)")
    case False
    then have step: "?f i m = Inl IndexError"
      unfolding shrink_row_eq [OF nc] by (rule if_not_P)
    from False have "\<not> list_all (\<lambda>i. i < length ?g \<and> nat oc \<le> length (?g ! i)) (i # rows)"
      by auto
    then show ?thesis unfolding unfold step rbind_Inl by (simp only: if_False)
  next
    case True
    let ?p1 = "population m - int (length (filter (live_cell m) (map (Pair i) ?cols)))"
    let ?m1 = "m\<lparr>population := ?p1, cell_states := ?g[i := take (nat nc) (?g ! i)]\<rparr>"
    have step: "?f i m = Inr ?m1" using True by (simp add: shrink_row_eq [OF nc])
    have other: "cell_states ?m1 ! k = ?g ! k" if "k \<in> set rows" for k
    proof -
      from that new have "i \<noteq> k" by blast
      then show ?thesis by simp
    qed
    have grid: "on_rows (set rows) (take (nat nc)) (cell_states ?m1)
                = on_rows (set (i # rows)) (take (nat nc)) ?g"
      using on_rows_insert [OF new, of ?g "take (nat nc)"] True by simp
    have cond: "list_all (\<lambda>k. k < length (cell_states ?m1) \<and> nat oc \<le> length (cell_states ?m1 ! k)) rows
                \<longleftrightarrow> list_all (\<lambda>k. k < length ?g \<and> nat oc \<le> length (?g ! k)) rows"
      using other by (auto simp: list_all_iff)
    have "filter (live_cell ?m1) (List.product rows ?cols)
          = filter (live_cell m) (List.product rows ?cols)"
      by (rule filter_cong) (use other in \<open>auto simp: live_cell_def\<close>)
    then have count: "population ?m1 - int (length (filter (live_cell ?m1) (List.product rows ?cols)))
          = population m - int (length (filter (live_cell m) (List.product (i # rows) ?cols)))"
      by simp
    show ?thesis unfolding unfold step rbind_Inr Cons.IH [OF dist] grid cond count
      using True by simp
  qed
qed

lemma mapped_loops:
  "for_each (\<lambda>r. for_each (\<lambda>c. b r c) (map int cs)) (map int rs) s
   = for_each (\<lambda>p. b (int (fst p)) (int (snd p))) (List.product rs cs) s"
proof -
  have "for_each (\<lambda>r. for_each (\<lambda>c. b r c) (map int cs)) (map int rs) s
        = for_each (\<lambda>i. for_each (\<lambda>j. b (int i) (int j)) cs) rs s"
    by (simp add: for_each_map_fun)
  also have "\<dots> = for_each (\<lambda>p. b (int (fst p)) (int (snd p))) (List.product rs cs) s"
    by (rule for_each_nested)
  finally show ?thesis .
qed

lemma adjust_rows_eq:
  assumes "0 \<le> nr"
  shows "adjust_rows orows oc nr m
         = (if nr > orows
            then Inr (m\<lparr>cell_states := cell_states m @ replicate (nat (nr - orows)) (zeros oc)\<rparr>)
            else if nr < orows
            then (if list_all (cell_ok (cell_states m))
                       (List.product (rev [nat nr..<nat orows]) [0..<nat oc])
                  then Inr (m\<lparr>population := population m
                                - int (length (filter (live_cell m)
                                    (List.product (rev [nat nr..<nat orows]) [0..<nat oc]))),
                              cell_states := take (nat nr) (cell_states m)\<rparr>)
                  else Inl IndexError)
            else Inr m)"
proof -
  have range: "py_range_down (orows - 1) (nr - 1) = map int (rev [nat nr..<nat orows])"
    using assms py_range_down_nat [of "nr - 1" "orows - 1"] by simp
  show ?thesis
    unfolding adjust_rows_def fold_append_rows range py_range_def mapped_loops scan_loop
    using assms by (simp add: py_take_nat)
qed

lemma adjust_cols_eq:
  assumes "0 \<le> nc"
  shows "adjust_cols oc nr nc m
         = (if nc > oc
            then (if list_all (\<lambda>i. i < length (cell_states m)) [0..<nat nr]
                  then Inr (m\<lparr>cell_states := on_rows {0..<nat nr} (\<lambda>r. r @ zeros (nc - oc))
                                                 (cell_states m)\<rparr>)
                  else Inl IndexError)
            else if nc < oc
            then (if list_all (\<lambda>i. i < length (cell_states m)
                                    \<and> nat oc \<le> length (cell_states m ! i)) [0..<nat nr]
                  then Inr (m\<lparr>population := population m
                                - int (length (filter (live_cell m)
                                    (List.product [0..<nat nr] (rev [nat nc..<nat oc])))),
                              cell_states := on_rows {0..<nat nr} (take (nat nc)) (cell_states m)\<rparr>)
                  else Inl IndexError)
            else Inr m)"
proof (cases "nc < oc")
  case True
  have "adjust_cols oc nr nc m = for_each (\<lambda>i. shrink_row oc nc (int i)) [0..<nat nr] m"
    using True by (simp add: adjust_cols_def py_range_def for_each_map)
  then show ?thesis using True by (simp add: shrink_loop [OF assms True])
next
  case False
  have "nc > oc \<Longrightarrow> adjust_cols oc nr nc m
          = for_each (\<lambda>i. extend_row (nc - oc) (int i)) [0..<nat nr] m"
    by (simp add: adjust_cols_def py_range_def for_each_map)
  then show ?thesis using False by (auto simp: extend_loop adjust_cols_def)
qed

subsection \<open>Resizing keeps the invariant\<close>

text \<open>What is counted by a scan of valid, distinct positions.\<close>

lemma scanned_card:
  assumes "distinct ps" "list_all (cell_ok (cell_states m)) ps"
  shows "length (filter (live_cell m) ps) = card (live_at (live_state m) (cell_states m) \<inter> set ps)"
proof -
  have "{x. live_cell m x} \<inter> set ps = live_at (live_state m) (cell_states m) \<inter> set ps"
    using assms(2) by (auto simp: live_at_def live_cell_def cell_ok_def list_all_iff)
  then show ?thesis using distinct_length_filter [OF assms(1), of "live_cell m"] by simp
qed

lemma card_diff_int:
  assumes "finite A"
  shows "int (card (A - B)) = int (card A) - int (card (A \<inter> B))"
proof -
  have "card (A \<inter> B) \<le> card A" using assms by (simp add: card_mono)
  moreover have "card (A - B) = card A - card (A \<inter> B)"
    using assms by (simp add: card_Diff_subset_Int)
  ultimately show ?thesis by simp
qed

lemma live_at_append_zeros:
  assumes "L \<noteq> 0"
  shows "live_at L (g @ replicate n (zeros c)) = live_at L g"
  using assms by (auto simp: live_at_def nth_append zeros_def split: if_splits)

lemma live_at_take: "live_at L (take n g) = live_at L g - {p. n \<le> fst p}"
  by (auto simp: live_at_def)

lemma live_at_extend_rows:
  assumes "L \<noteq> 0"
  shows "live_at L (on_rows S (\<lambda>r. r @ zeros k) g) = live_at L g"
  using assms by (auto simp: live_at_def nth_on_rows nth_append zeros_def split: if_splits)

lemma live_at_shrink_rows:
  "live_at L (on_rows S (take n) g) = live_at L g - {p. fst p \<in> S \<and> n \<le> snd p}"
  by (auto simp: live_at_def nth_on_rows split: if_splits)

lemma grid_in_range_append_zeros:
  assumes "grid_in_range L g" "0 \<le> L"
  shows "grid_in_range L (g @ replicate n (zeros c))"
  using assms unfolding grid_in_range_def
  by (auto simp: nth_append zeros_def split: if_splits)

lemma dead_outside_append_zeros:
  assumes "dead_outside R C g" "R \<le> R'"
  shows "dead_outside R' C (g @ replicate n (zeros c))"
  using assms unfolding dead_outside_def
  by (fastforce simp: nth_append zeros_def split: if_splits)

lemma grid_in_range_take:
  assumes "grid_in_range L g"
  shows "grid_in_range L (take n g)"
  using assms unfolding grid_in_range_def by simp

lemma dead_outside_take:
  assumes "dead_outside R C g" "0 \<le> R'"
  shows "dead_outside R' C (take (nat R') g)"
  using assms unfolding dead_outside_def by auto

lemma grid_in_range_extend_rows:
  assumes "grid_in_range L g" "0 \<le> L"
  shows "grid_in_range L (on_rows S (\<lambda>r. r @ zeros k) g)"
  using assms unfolding grid_in_range_def
  by (auto simp: nth_on_rows nth_append zeros_def split: if_splits)

lemma dead_outside_extend_rows:
  assumes "dead_outside R C g" "C \<le> C'"
  shows "dead_outside R C' (on_rows S (\<lambda>r. r @ zeros k) g)"
  using assms unfolding dead_outside_def
  by (fastforce simp: nth_on_rows nth_append zeros_def split: if_splits)

lemma grid_in_range_shrink_rows:
  assumes "grid_in_range L g"
  shows "grid_in_range L (on_rows S (take n) g)"
  using assms unfolding grid_in_range_def
  by (auto simp: nth_on_rows split: if_splits)

lemma dead_outside_shrink_rows:
  assumes "dead_outside R C g" "0 \<le> C'"
  shows "dead_outside R C' (on_rows {0..<nat R} (take (nat C')) g)"
  using assms unfolding dead_outside_def
  by (fastforce simp: nth_on_rows split: if_splits)

lemma rows_phase:
  assumes L: "live_state m \<noteq> 0"
    and out: "dead_outside orows oc (cell_states m)" and nr: "0 \<le> nr"
    and run: "adjust_rows orows oc nr m = Inr m2"
  shows "frame m m2
         \<and> (0 \<le> live_state m \<and> grid_in_range (live_state m) (cell_states m)
              \<longrightarrow> grid_in_range (live_state m) (cell_states m2))
         \<and> dead_outside nr oc (cell_states m2)
         \<and> population m2 - int (card (live_at (live_state m) (cell_states m2)))
             = population m - int (card (live_at (live_state m) (cell_states m)))"
proof -
  let ?L = "live_state m"
  let ?g = "cell_states m"
  have L0: "?L \<noteq> 0" using L .
  consider (grow) "nr > orows" | (shrink) "nr < orows" | (same) "nr = orows" by linarith
  then show ?thesis
  proof cases
    case grow
    with run have m2: "m2 = m\<lparr>cell_states := ?g @ replicate (nat (nr - orows)) (zeros oc)\<rparr>"
      by (simp add: adjust_rows_eq [OF nr])
    show ?thesis unfolding m2 using grow out L0
      by (simp add: live_at_append_zeros grid_in_range_append_zeros dead_outside_append_zeros)
  next
    case shrink
    let ?ps = "List.product (rev [nat nr..<nat orows]) [0..<nat oc]"
    from run shrink have ok: "list_all (cell_ok ?g) ?ps"
      and m2: "m2 = m\<lparr>population := population m - int (length (filter (live_cell m) ?ps)),
                       cell_states := take (nat nr) ?g\<rparr>"
      by (auto simp: adjust_rows_eq [OF nr] split: if_splits)
    have dist: "distinct ?ps" by (simp add: distinct_product)
    have "live_at ?L ?g \<inter> {p. nat nr \<le> fst p} = live_at ?L ?g \<inter> set ?ps"
      using live_at_subset_rect [OF out L0] by fastforce
    then have "int (card (live_at ?L (take (nat nr) ?g)))
               = int (card (live_at ?L ?g)) - int (length (filter (live_cell m) ?ps))"
      by (simp add: live_at_take card_diff_int scanned_card [OF dist ok])
    then show ?thesis unfolding m2 using out nr
      by (simp add: grid_in_range_take dead_outside_take frame_def)
  next
    case same
    with run have "m2 = m" by (simp add: adjust_rows_def)
    then show ?thesis using out same by simp
  qed
qed

lemma cols_phase:
  assumes L: "live_state m \<noteq> 0"
    and out: "dead_outside nr oc (cell_states m)" and nc: "0 \<le> nc"
    and run: "adjust_cols oc nr nc m = Inr m3"
  shows "frame m m3
         \<and> (0 \<le> live_state m \<and> grid_in_range (live_state m) (cell_states m)
              \<longrightarrow> grid_in_range (live_state m) (cell_states m3))
         \<and> dead_outside nr nc (cell_states m3)
         \<and> population m3 - int (card (live_at (live_state m) (cell_states m3)))
             = population m - int (card (live_at (live_state m) (cell_states m)))"
proof -
  let ?L = "live_state m"
  let ?g = "cell_states m"
  have L0: "?L \<noteq> 0" using L .
  consider (grow) "nc > oc" | (shrink) "nc < oc" | (same) "nc = oc" by linarith
  then show ?thesis
  proof cases
    case grow
    with run have m3: "m3 = m\<lparr>cell_states := on_rows {0..<nat nr} (\<lambda>r. r @ zeros (nc - oc)) ?g\<rparr>"
      by (auto simp: adjust_cols_eq [OF nc] split: if_splits)
    show ?thesis unfolding m3 using grow out L0
      by (simp add: live_at_extend_rows grid_in_range_extend_rows dead_outside_extend_rows)
  next
    case shrink
    let ?ps = "List.product [0..<nat nr] (rev [nat nc..<nat oc])"
    from run shrink have valid: "list_all (\<lambda>i. i < length ?g \<and> nat oc \<le> length (?g ! i)) [0..<nat nr]"
      and m3: "m3 = m\<lparr>population := population m - int (length (filter (live_cell m) ?ps)),
                       cell_states := on_rows {0..<nat nr} (take (nat nc)) ?g\<rparr>"
      by (auto simp: adjust_cols_eq [OF nc] split: if_splits)
    have ok: "list_all (cell_ok ?g) ?ps"
      using valid by (auto simp: list_all_iff cell_ok_def)
    have dist: "distinct ?ps" by (simp add: distinct_product)
    have "live_at ?L ?g \<inter> {p. fst p \<in> {0..<nat nr} \<and> nat nc \<le> snd p} = live_at ?L ?g \<inter> set ?ps"
      using live_at_subset_rect [OF out L0] by fastforce
    then have "int (card (live_at ?L (on_rows {0..<nat nr} (take (nat nc)) ?g)))
               = int (card (live_at ?L ?g)) - int (length (filter (live_cell m) ?ps))"
      by (simp add: live_at_shrink_rows card_diff_int scanned_card [OF dist ok])
    then show ?thesis unfolding m3 using out nc
      by (simp add: grid_in_range_shrink_rows dead_outside_shrink_rows frame_def)
  next
    case same
    with run have "m3 = m" by (simp add: adjust_cols_def)
    then show ?thesis using out same by simp
  qed
qed

lemma adjust_grid_size_keeps:
  assumes inv: "engine_inv m" and nr: "0 \<le> nr" and nc: "0 \<le> nc"
    and run: "adjust_grid_size nr nc m = Inr m'"
  shows "engine_inv m'"
proof -
  let ?L = "live_state m"
  let ?m1 = "m\<lparr>num_rows := nr, num_cols := nc\<rparr>"
  from run obtain m2 m3 where
    r: "adjust_rows (num_rows m) (num_cols m) nr ?m1 = Inr m2"
    and c: "adjust_cols (num_cols m) nr nc m2 = Inr m3"
    and m': "m' = m3\<lparr>total_cells := num_rows m3 * num_cols m3\<rparr>"
    by (auto simp: adjust_grid_size_def Let_def rbind_eq_Inr)
  have L: "1 < ?L" and rg: "grid_in_range ?L (cell_states m)"
    and pop: "population m = int (card (live_at ?L (cell_states m)))"
    and out: "dead_outside (num_rows m) (num_cols m) (cell_states m)"
    using inv by (simp_all add: engine_inv_def)
  from rows_phase [OF _ _ nr r] L rg out pop
  have 2: "frame ?m1 m2" "grid_in_range ?L (cell_states m2)"
    "dead_outside nr (num_cols m) (cell_states m2)"
    "population m2 = int (card (live_at ?L (cell_states m2)))"
    by simp_all
  have L2: "live_state m2 = ?L" using 2(1) by (simp add: frame_def)
  from cols_phase [OF _ _ nc c] L 2 L2
  have 3: "frame m2 m3" "grid_in_range ?L (cell_states m3)"
    "dead_outside nr nc (cell_states m3)"
    "population m3 = int (card (live_at ?L (cell_states m3)))"
    by simp_all
  have "num_rows m3 = nr" "num_cols m3 = nc" "live_state m3 = ?L"
    using 2(1) 3(1) by (simp_all add: frame_def)
  with 3 L show ?thesis by (simp add: m' engine_inv_def)
qed

subsection \<open>Every reachable state\<close>

lemma reachable_engine_inv: "reachable m \<Longrightarrow> engine_inv m"
proof (induction rule: reachable.induct)
  case (construct live n_rows n_cols w t)
  then show ?case by (rule Model_init_inv)
next
  case (after_step m m')
  then show ?case by (blast intro: step_keeps)
next
  case (after_randomize m bits m')
  then show ?case by (blast intro: randomize_keeps)
next
  case (after_clear m m')
  then show ?case by (blast intro: clear_keeps)
next
  case (after_set_cells_state m cells state m')
  then show ?case using set_cells_state_keeps by blast
next
  case (after_toggle_wrap m)
  then show ?case by (blast intro: toggle_wrap_keeps)
next
  case (after_toggle_trace m m')
  then show ?case by (blast intro: toggle_trace_keeps)
next
  case (after_adjust_grid_size m new_num_rows new_num_cols m')
  then show ?case by (blast intro: adjust_grid_size_keeps)
qed

lemma engine_inv_claims:
  assumes "engine_inv m"
  shows "population m = count_live m" "cells_in_range m"
  using assms by (simp_all add: engine_inv_def count_live_card cells_in_range_iff)

text \<open>
  C1. In every state the engine can reach (construction with \<open>live_state > 1\<close>, then any
  operations that return, with in-range coordinates for \<open>set_cells_state\<close> and
  non-negative dimensions for \<open>adjust_grid_size\<close>), \<open>population\<close> is the number of
  stored cells equal to \<open>live_state\<close> and every stored cell is between 0 and
  \<open>live_state\<close>.
\<close>

theorem population_invariant:
  assumes "reachable m"
  shows "population m = count_live m \<and> cells_in_range m"
  using engine_inv_claims [OF reachable_engine_inv [OF assms]] by simp

theorem population_invariant_witness:
  "reachable \<lparr>num_rows = 1, num_cols = 3, live_state = 2, wrap = False, trace = False,
      cell_states = [[2, 0, 0]], population = 1, total_cells = 3\<rparr>
   \<and> population \<lparr>num_rows = 1, num_cols = 3, live_state = 2, wrap = False, trace = False,
      cell_states = [[2, 0, 0]], population = 1, total_cells = 3\<rparr>
     = count_live \<lparr>num_rows = 1, num_cols = 3, live_state = 2, wrap = False, trace = False,
      cell_states = [[2, 0, 0]], population = 1, total_cells = 3\<rparr>
   \<and> cells_in_range \<lparr>num_rows = 1, num_cols = 3, live_state = 2, wrap = False, trace = False,
      cell_states = [[2, 0, 0]], population = 1, total_cells = 3\<rparr>"
proof -
  let ?m0 = "Model_init 2 2 2 False True"
  let ?m1 = "\<lparr>num_rows = 2, num_cols = 2, live_state = 2, wrap = False, trace = True,
      cell_states = [[2, 2], [0, 0]], population = 2, total_cells = 4\<rparr>"
  let ?m2 = "\<lparr>num_rows = 2, num_cols = 2, live_state = 2, wrap = False, trace = True,
      cell_states = [[1, 1], [0, 0]], population = 0, total_cells = 4\<rparr>"
  let ?m3 = "\<lparr>num_rows = 2, num_cols = 2, live_state = 2, wrap = False, trace = True,
      cell_states = [[2, 1], [0, 0]], population = 1, total_cells = 4\<rparr>"
  let ?m4 = "\<lparr>num_rows = 1, num_cols = 3, live_state = 2, wrap = False, trace = True,
      cell_states = [[2, 1, 0]], population = 1, total_cells = 3\<rparr>"
  let ?m5 = "\<lparr>num_rows = 1, num_cols = 3, live_state = 2, wrap = False, trace = False,
      cell_states = [[2, 0, 0]], population = 1, total_cells = 3\<rparr>"
  have r0: "reachable ?m0" by (rule reachable.construct) simp
  have "list_all (in_grid ?m0) [(0, 0), (0, 1)]" by code_simp
  moreover have "set_cells_state [(0, 0), (0, 1)] True ?m0 = Inr ?m1" by code_simp
  ultimately have r1: "reachable ?m1" using r0 by (rule reachable.after_set_cells_state [rotated])
  have "step ?m1 = Inr ?m2" by code_simp
  with r1 have r2: "reachable ?m2" by (rule reachable.after_step)
  have "list_all (in_grid ?m2) [(0, 0)]" by code_simp
  moreover have "set_cells_state [(0, 0)] True ?m2 = Inr ?m3" by code_simp
  ultimately have r3: "reachable ?m3" using r2 by (rule reachable.after_set_cells_state [rotated])
  have "adjust_grid_size 1 3 ?m3 = Inr ?m4" by code_simp
  then have r4: "reachable ?m4"
    by (rule reachable.after_adjust_grid_size [OF r3, rotated 2]) simp_all
  have "toggle_trace ?m4 = Inr ?m5" by code_simp
  with r4 have r5: "reachable ?m5" by (rule reachable.after_toggle_trace)
  from population_invariant [OF r5] r5 show ?thesis by blast
qed

section \<open>On a rectangular grid every operation returns\<close>

lemma well_formed_write:
  assumes "well_formed t"
  shows "well_formed (t\<lparr>cell_states := (cell_states t)[i := (cell_states t ! i)[j := v]]\<rparr>)"
    and "well_formed (t\<lparr>cell_states := (cell_states t)[i := (cell_states t ! i)[j := v]],
                        population := p\<rparr>)"
  using assms by (simp_all add: well_formed_def list_all_length)

lemma well_formed_population [simp]:
  "well_formed (t\<lparr>population := p\<rparr>) = well_formed t"
  by (simp add: well_formed_def)

lemma well_formed_step:
  assumes "well_formed m"
  shows "well_formed (m\<lparr>cell_states := next_grid m, population := p\<rparr>)"
  using assms by (simp add: well_formed_def next_grid_def list_all_length)

lemma wf_set_cell:
  assumes "well_formed t" "i < nat (num_rows t)" "j < nat (num_cols t)"
  shows "set_cell (cell_states t) (int i) (int j) v
         = Inr ((cell_states t)[i := (cell_states t ! i)[j := v]])"
  using wf_cell [OF assms] by (simp add: set_cell_int)

lemma wf_get_cell:
  assumes "well_formed t" "i < nat (num_rows t)" "j < nat (num_cols t)"
  shows "get_cell (cell_states t) (int i) (int j) = Inr (cell_states t ! i ! j)"
  using wf_cell [OF assms] by (simp add: get_cell_int)

lemma wf_loop_total:
  assumes body: "\<And>i j t. well_formed t \<Longrightarrow> frame m t \<Longrightarrow> i < nat (num_rows m)
                   \<Longrightarrow> j < nat (num_cols m)
                   \<Longrightarrow> \<exists>t'. b (int i) (int j) t = Inr t' \<and> well_formed t' \<and> frame t t'"
    and wf: "well_formed m"
  shows "\<exists>m'. for_each (\<lambda>row. for_each (\<lambda>col. b row col) (py_range (num_cols m)))
                 (py_range (num_rows m)) m = Inr m' \<and> well_formed m' \<and> frame m m'"
proof -
  let ?xs = "List.product [0..<nat (num_rows m)] [0..<nat (num_cols m)]"
  have "\<exists>m'. for_each (\<lambda>p. b (int (fst p)) (int (snd p))) ?xs m = Inr m'
          \<and> (well_formed m' \<and> frame m m')"
  proof (rule for_each_total [where P = "\<lambda>ys t. well_formed t \<and> frame m t"])
    show "well_formed m \<and> frame m m" using wf by simp
  next
    fix ys x zs t
    assume split: "?xs = ys @ x # zs" and t: "well_formed t \<and> frame m t"
    note sp = split_product [OF split]
    from body [of t "fst x" "snd x"] t sp
    obtain t' where "b (int (fst x)) (int (snd x)) t = Inr t'" "well_formed t'" "frame t t'"
      by blast
    with t show "\<exists>t'. b (int (fst x)) (int (snd x)) t = Inr t' \<and> well_formed t' \<and> frame m t'"
      by (blast intro: frame_trans)
  qed
  then show ?thesis by (simp add: nat_loops)
qed

lemma clear_total:
  assumes wf: "well_formed m"
  shows "\<exists>m'. clear m = Inr m' \<and> well_formed m' \<and> frame m m'"
proof -
  have "\<exists>t. for_each (\<lambda>row. for_each (\<lambda>col. clear_cell row col) (py_range (num_cols m)))
                 (py_range (num_rows m)) m = Inr t \<and> well_formed t \<and> frame m t"
  proof (rule wf_loop_total [OF _ wf])
    fix i j t
    assume t: "well_formed t" "frame m t" and ij: "i < nat (num_rows m)" "j < nat (num_cols m)"
    then have "i < nat (num_rows t)" "j < nat (num_cols t)" by (simp_all add: frame_def)
    from wf_set_cell [OF t(1) this] well_formed_write(1) [OF t(1)]
    show "\<exists>t'. clear_cell (int i) (int j) t = Inr t' \<and> well_formed t' \<and> frame t t'"
      by (simp add: clear_cell_def)
  qed
  then obtain t where "for_each (\<lambda>row. for_each (\<lambda>col. clear_cell row col) (py_range (num_cols m)))
                 (py_range (num_rows m)) m = Inr t" "well_formed t" "frame m t" by blast
  then show ?thesis by (simp add: clear_def frame_def)
qed

lemma toggle_trace_total:
  assumes wf: "well_formed m"
  shows "\<exists>m'. toggle_trace m = Inr m' \<and> well_formed m'"
proof (cases "trace m")
  case False
  then show ?thesis using wf by (simp add: toggle_trace_def Let_def well_formed_def)
next
  case True
  let ?m1 = "m\<lparr>trace := False\<rparr>"
  have wf1: "well_formed ?m1" using wf by (simp add: well_formed_def)
  have "\<exists>t. for_each (\<lambda>row. for_each (\<lambda>col. fade_out_cell row col) (py_range (num_cols ?m1)))
                 (py_range (num_rows ?m1)) ?m1 = Inr t \<and> well_formed t \<and> frame ?m1 t"
  proof (rule wf_loop_total [OF _ wf1])
    fix i j t
    assume t: "well_formed t" "frame ?m1 t" and ij: "i < nat (num_rows ?m1)" "j < nat (num_cols ?m1)"
    then have ij': "i < nat (num_rows t)" "j < nat (num_cols t)" by (simp_all add: frame_def)
    from wf_set_cell [OF t(1) ij'] wf_get_cell [OF t(1) ij'] well_formed_write(1) [OF t(1)] t(1)
    show "\<exists>t'. fade_out_cell (int i) (int j) t = Inr t' \<and> well_formed t' \<and> frame t t'"
      by (simp add: fade_out_cell_def)
  qed
  then show ?thesis using True by (auto simp: toggle_trace_def Let_def)
qed

lemma set_cells_state_total:
  assumes wf: "well_formed m" and rc: "list_all (in_grid m) cells"
  shows "\<exists>m'. set_cells_state cells b m = Inr m' \<and> well_formed m' \<and> frame m m'"
  unfolding set_cells_state_def
proof (rule for_each_total [where P = "\<lambda>ys t. well_formed t \<and> frame m t"])
  show "well_formed m \<and> frame m m" using wf by simp
next
  fix ys x zs t
  assume split: "cells = ys @ x # zs" and t: "well_formed t \<and> frame m t"
  have "in_grid m x" using rc split by (simp add: list_all_iff)
  then obtain i j where x: "x = (int i, int j)" and ij: "i < nat (num_rows t)" "j < nat (num_cols t)"
    using t by (cases x) (auto simp: in_grid_def frame_def elim!: nonneg_int_cases)
  from t have wt: "well_formed t" by simp
  have "\<exists>t'. set_cell_state b (int i, int j) t = Inr t' \<and> well_formed t' \<and> frame t t'"
    using wf_set_cell [OF wt ij] wf_get_cell [OF wt ij] wt
    by (simp add: set_cell_state_def Let_def frame_def well_formed_def list_all_length)
  with t show "\<exists>t'. set_cell_state b x t = Inr t' \<and> well_formed t' \<and> frame m t'"
    unfolding x by (blast intro: frame_trans)
qed

lemma randomize_total:
  assumes wf: "well_formed m"
  shows "\<exists>m'. randomize bits m = Inr m' \<and> well_formed m' \<and> frame m m'"
proof -
  let ?xs = "List.product [0..<nat (num_rows m)] [0..<nat (num_cols m)]"
  have "\<exists>s. for_each (\<lambda>p. randomize_cell bits (int (fst p)) (int (snd p))) ?xs
               (m\<lparr>population := 0\<rparr>, 0) = Inr s \<and> (well_formed (fst s) \<and> frame m (fst s))"
  proof (rule for_each_total [where P = "\<lambda>ys s. well_formed (fst s) \<and> frame m (fst s)"])
    show "well_formed (fst (m\<lparr>population := 0\<rparr>, 0::nat)) \<and> frame m (fst (m\<lparr>population := 0\<rparr>, 0::nat))"
      using wf by simp
  next
    fix ys x zs and s :: "model \<times> nat"
    assume split: "?xs = ys @ x # zs" and s: "well_formed (fst s) \<and> frame m (fst s)"
    obtain t k where tk: "s = (t, k)" by (cases s)
    note sp = split_product [OF split]
    from s tk have wt: "well_formed t" and fr: "frame m t" by simp_all
    have ij: "fst x < nat (num_rows t)" "snd x < nat (num_cols t)"
      using sp fr by (simp_all add: frame_def)
    show "\<exists>s'. randomize_cell bits (int (fst x)) (int (snd x)) s = Inr s'
            \<and> well_formed (fst s') \<and> frame m (fst s')"
      using wf_set_cell [OF wt ij] well_formed_write [OF wt] fr
      by (simp add: tk randomize_cell_def frame_def)
  qed
  then show ?thesis by (auto simp: randomize_def nat_loops)
qed

lemma step_total:
  assumes wf: "well_formed m"
  shows "\<exists>m'. step m = Inr m' \<and> well_formed m' \<and> frame m m'"
  using step_eq [OF wf] well_formed_step [OF wf] by (simp add: frame_def)

lemma Model_init_well_formed:
  assumes "0 \<le> n_rows" "0 \<le> n_cols"
  shows "well_formed (Model_init n_rows n_cols live w t)"
  using assms by (simp add: well_formed_def Model_init_def py_range_def zeros_def list_all_length)

section \<open>Switching trace off\<close>

lemma fade_out_cell_step:
  assumes inv: "fade_inv m ys t" and ij: "i < nat (num_rows m)" "j < nat (num_cols m)"
    and new: "(i, j) \<notin> set ys"
  shows "\<exists>t'. fade_out_cell (int i) (int j) t = Inr t' \<and> fade_inv m (ys @ [(i, j)]) t'"
proof -
  let ?g = "cell_states t"
  from inv have wt: "well_formed t" and fr: "frame (m\<lparr>trace := False\<rparr>) t"
    by (simp_all add: fade_inv_def)
  have ij': "i < nat (num_rows t)" "j < nat (num_cols t)" using ij fr by (simp_all add: frame_def)
  have cur: "?g ! i ! j = cell_states m ! i ! j" using inv ij new by (simp add: fade_inv_def)
  have Lt: "live_state t = live_state m" using fr by (simp add: frame_def)
  show ?thesis
  proof (cases "cell_states m ! i ! j < live_state m")
    case True
    let ?t' = "t\<lparr>cell_states := ?g[i := (?g ! i)[j := 0]]\<rparr>"
    have run: "fade_out_cell (int i) (int j) t = Inr ?t'"
      using True cur Lt by (simp add: fade_out_cell_def wf_get_cell [OF wt ij'] wf_set_cell [OF wt ij'])
    have "fade_inv m (ys @ [(i, j)]) ?t'"
      using inv True well_formed_write(1) [OF wt] wf_cell [OF wt ij'] unfolding fade_inv_def
      by (auto simp: nth_cell_update frame_def)
    with run show ?thesis by blast
  next
    case False
    have run: "fade_out_cell (int i) (int j) t = Inr t"
      using False cur Lt by (simp add: fade_out_cell_def wf_get_cell [OF wt ij'])
    have "fade_inv m (ys @ [(i, j)]) t"
      using inv False unfolding fade_inv_def by auto
    with run show ?thesis by blast
  qed
qed

lemma toggle_trace_eq:
  assumes wf: "well_formed m" and tr: "trace m"
  shows "toggle_trace m = Inr (m\<lparr>trace := False, cell_states := collapse_trails m\<rparr>)"
proof -
  let ?m1 = "m\<lparr>trace := False\<rparr>"
  let ?xs = "List.product [0..<nat (num_rows m)] [0..<nat (num_cols m)]"
  have "\<exists>t. for_each (\<lambda>p. fade_out_cell (int (fst p)) (int (snd p))) ?xs ?m1 = Inr t
          \<and> fade_inv m ?xs t"
  proof (rule for_each_total [where P = "fade_inv m"])
    show "fade_inv m [] ?m1" using wf by (simp add: fade_inv_def well_formed_def)
  next
    fix ys x zs t
    assume split: "?xs = ys @ x # zs" and t: "fade_inv m ys t"
    note sp = split_product [OF split]
    from fade_out_cell_step [OF t sp(1) sp(2)] sp(3)
    show "\<exists>t'. fade_out_cell (int (fst x)) (int (snd x)) t = Inr t' \<and> fade_inv m (ys @ [x]) t'"
      by simp
  qed
  then obtain t where run: "for_each (\<lambda>p. fade_out_cell (int (fst p)) (int (snd p))) ?xs ?m1 = Inr t"
    and fin: "fade_inv m ?xs t" by blast
  from fin have wt: "well_formed t" and fr: "frame ?m1 t" and pop: "population t = population m"
    and cells: "\<And>i j. i < nat (num_rows m) \<Longrightarrow> j < nat (num_cols m) \<Longrightarrow>
        cell_states t ! i ! j = (if cell_states m ! i ! j < live_state m then 0
                                 else cell_states m ! i ! j)"
    by (simp_all add: fade_inv_def)
  have dims: "num_rows t = num_rows m" "num_cols t = num_cols m" using fr by (simp_all add: frame_def)
  have "int (length (cell_states t)) = num_rows m" "int (length (cell_states m)) = num_rows m"
    using wt wf dims by (simp_all add: well_formed_def)
  then have len: "length (cell_states t) = nat (num_rows m)"
    "length (cell_states m) = nat (num_rows m)"
    by linarith+
  have rows: "length (cell_states t ! i) = nat (num_cols m)" "length (cell_states m ! i) = nat (num_cols m)"
    if "i < nat (num_rows m)" for i
  proof -
    have "int (length (cell_states t ! i)) = num_cols m" "int (length (cell_states m ! i)) = num_cols m"
      using wt wf dims that len by (simp_all add: well_formed_def list_all_length)
    then show "length (cell_states t ! i) = nat (num_cols m)"
      "length (cell_states m ! i) = nat (num_cols m)"
      by linarith+
  qed
  have grid: "cell_states t = collapse_trails m"
  proof (rule nth_equalityI)
    show "length (cell_states t) = length (collapse_trails m)" by (simp add: len collapse_trails_def)
  next
    fix i assume "i < length (cell_states t)"
    then have i: "i < nat (num_rows m)" by (simp add: len)
    show "cell_states t ! i = collapse_trails m ! i"
    proof (rule nth_equalityI)
      show "length (cell_states t ! i) = length (collapse_trails m ! i)"
        using i by (simp add: rows len collapse_trails_def)
    next
      fix j assume "j < length (cell_states t ! i)"
      then have "j < nat (num_cols m)" using i by (simp add: rows)
      then show "cell_states t ! i ! j = collapse_trails m ! i ! j"
        using i by (simp add: cells rows len collapse_trails_def)
    qed
  qed
  have "t = m\<lparr>trace := False, cell_states := collapse_trails m\<rparr>"
    using fr pop grid by (simp add: frame_def)
  then show ?thesis using tr run by (simp add: toggle_trace_def Let_def nat_loops)
qed

text \<open>
  C7. On a rectangular grid with trace on, \<open>toggle_trace\<close> returns with trace off, the
  population and the dimensions as they were, every cell strictly between 0 and
  \<open>live_state\<close> at 0, and every cell equal to \<open>live_state\<close> or to 0 unchanged. A cell
  holding the fade value 1 (with \<open>live_state = 4\<close>) becomes 0.
\<close>

theorem toggle_trace_off:
  assumes "well_formed m" and "trace m"
  shows "(\<exists>m'. toggle_trace m = Inr m' \<and> \<not> trace m' \<and> population m' = population m
            \<and> well_formed m' \<and> num_rows m' = num_rows m \<and> num_cols m' = num_cols m
            \<and> (\<forall>i < nat (num_rows m). \<forall>j < nat (num_cols m).
                 (0 < cell_states m ! i ! j \<and> cell_states m ! i ! j < live_state m
                    \<longrightarrow> cell_states m' ! i ! j = 0)
                 \<and> (cell_states m ! i ! j = live_state m \<or> cell_states m ! i ! j = 0
                    \<longrightarrow> cell_states m' ! i ! j = cell_states m ! i ! j)))
         \<and> toggle_trace (lone_cell 1 0 True) = Inr (lone_cell 0 0 False)"
proof -
  let ?m' = "m\<lparr>trace := False, cell_states := collapse_trails m\<rparr>"
  have run: "toggle_trace m = Inr ?m'" using toggle_trace_eq [OF assms] .
  have wf': "well_formed ?m'"
    using assms(1) by (simp add: well_formed_def collapse_trails_def list_all_length)
  have cells: "cell_states ?m' ! i ! j
      = (if cell_states m ! i ! j < live_state m then 0 else cell_states m ! i ! j)"
    if "i < nat (num_rows m)" "j < nat (num_cols m)" for i j
    using wf_cell [OF assms(1) that] by (simp add: collapse_trails_def)
  have "\<forall>i < nat (num_rows m). \<forall>j < nat (num_cols m).
          (0 < cell_states m ! i ! j \<and> cell_states m ! i ! j < live_state m
             \<longrightarrow> cell_states ?m' ! i ! j = 0)
          \<and> (cell_states m ! i ! j = live_state m \<or> cell_states m ! i ! j = 0
             \<longrightarrow> cell_states ?m' ! i ! j = cell_states m ! i ! j)"
    using cells by auto
  with run wf' have general: "\<exists>m'. toggle_trace m = Inr m' \<and> \<not> trace m' \<and> population m' = population m
            \<and> well_formed m' \<and> num_rows m' = num_rows m \<and> num_cols m' = num_cols m
            \<and> (\<forall>i < nat (num_rows m). \<forall>j < nat (num_cols m).
                 (0 < cell_states m ! i ! j \<and> cell_states m ! i ! j < live_state m
                    \<longrightarrow> cell_states m' ! i ! j = 0)
                 \<and> (cell_states m ! i ! j = live_state m \<or> cell_states m ! i ! j = 0
                    \<longrightarrow> cell_states m' ! i ! j = cell_states m ! i ! j))"
    by (intro exI [of _ ?m']) simp
  have "well_formed (lone_cell 1 0 True)" "trace (lone_cell 1 0 True)"
    by (simp_all add: well_formed_def lone_cell_def)
  from toggle_trace_eq [OF this]
  have "toggle_trace (lone_cell 1 0 True) = Inr (lone_cell 0 0 False)"
    by (simp add: lone_cell_def collapse_trails_def)
  with general show ?thesis by blast
qed

theorem toggle_trace_off_witness:
  "well_formed (uniform3 4 1 0 True) \<and> trace (uniform3 4 1 0 True)
   \<and> (\<exists>m'. toggle_trace (uniform3 4 1 0 True) = Inr m' \<and> cell_states m' ! 2 ! 1 = 0
         \<and> population m' = 0)"
proof -
  let ?b = "uniform3 4 1 0 True"
  have wf: "well_formed ?b" and tr: "trace ?b"
    by (simp_all add: uniform3_def well_formed_def)
  from toggle_trace_off [OF wf tr] obtain m' where run: "toggle_trace ?b = Inr m'"
    and pop: "population m' = population ?b"
    and cells: "\<forall>i < nat (num_rows ?b). \<forall>j < nat (num_cols ?b).
                 (0 < cell_states ?b ! i ! j \<and> cell_states ?b ! i ! j < live_state ?b
                    \<longrightarrow> cell_states m' ! i ! j = 0)
                 \<and> (cell_states ?b ! i ! j = live_state ?b \<or> cell_states ?b ! i ! j = 0
                    \<longrightarrow> cell_states m' ! i ! j = cell_states ?b ! i ! j)"
    by blast
  have "2 < nat (num_rows ?b)" "1 < nat (num_cols ?b)"
    "0 < cell_states ?b ! 2 ! 1 \<and> cell_states ?b ! 2 ! 1 < live_state ?b"
    by (simp_all add: uniform3_def)
  with cells have "cell_states m' ! 2 ! 1 = 0" by blast
  moreover have "population m' = 0" using pop by (simp add: uniform3_def)
  ultimately show ?thesis using wf tr run by blast
qed

section \<open>Point edits are idempotent\<close>

lemma py_pos_Inr: "py_pos xs i = Inr k \<Longrightarrow> k < length xs"
  by (auto simp: py_pos_def split: if_splits)

lemma py_pos_length: "length ys = length xs \<Longrightarrow> py_pos ys i = py_pos xs i"
  by (simp add: py_pos_def)

lemma get_cell_pos:
  "get_cell g r c = Inr v \<longleftrightarrow>
   (\<exists>i j. py_pos g r = Inr i \<and> py_pos (g ! i) c = Inr j \<and> g ! i ! j = v)"
  by (auto simp: get_cell_def py_index_def rbind_eq_Inr)

lemma set_cell_pos:
  "set_cell g r c v = Inr g' \<longleftrightarrow>
   (\<exists>i j. py_pos g r = Inr i \<and> py_pos (g ! i) c = Inr j \<and> g' = g[i := (g ! i)[j := v]])"
  by (auto simp: set_cell_def py_index_def py_store_def rbind_eq_Inr)

lemma get_after_set:
  assumes "set_cell g r c v = Inr g'"
  shows "get_cell g' r c = Inr v"
proof -
  from assms obtain i j where i: "py_pos g r = Inr i" and j: "py_pos (g ! i) c = Inr j"
    and g': "g' = g[i := (g ! i)[j := v]]"
    by (auto simp: set_cell_pos)
  have ij: "i < length g" "j < length (g ! i)" using i j by (auto dest: py_pos_Inr)
  have "py_pos g' r = Inr i" using i by (simp add: g' py_pos_length [of "g[i := _]" g])
  moreover have "py_pos (g' ! i) c = Inr j"
    using j ij by (simp add: g' py_pos_length [of "(g ! i)[j := v]" "g ! i"])
  moreover have "g' ! i ! j = v" using ij by (simp add: g')
  ultimately show ?thesis unfolding get_cell_pos by blast
qed

lemma get_stable_under_set:
  assumes "set_cell g r' c' v = Inr g'" and "get_cell g r c = Inr v"
  shows "get_cell g' r c = Inr v"
proof -
  from assms(1) obtain i j where g': "g' = g[i := (g ! i)[j := v]]"
    by (auto simp: set_cell_pos)
  from assms(2) obtain k l where k: "py_pos g r = Inr k" and l: "py_pos (g ! k) c = Inr l"
    and v: "g ! k ! l = v"
    by (auto simp: get_cell_pos)
  have "py_pos g' r = Inr k" using k by (simp add: g' py_pos_length [of "g[i := _]" g])
  moreover have "py_pos (g' ! k) c = Inr l"
    using l by (simp add: g' py_pos_length [of "g[i := (g ! i)[j := v]] ! k" "g ! k"])
  moreover have "g' ! k ! l = v" using v by (simp add: g' nth_cell_update)
  ultimately show ?thesis unfolding get_cell_pos by blast
qed

lemma set_cell_state_cases:
  assumes "set_cell_state state (r, c) m = Inr m'"
  shows "m' = m \<and> settled state m (r, c)
         \<or> (\<exists>g'. set_cell (cell_states m) r c (if state then live_state m else 0) = Inr g'
               \<and> cell_states m' = g' \<and> live_state m' = live_state m)"
proof -
  from assms obtain v where get: "get_cell (cell_states m) r c = Inr v"
    by (cases state) (auto simp: set_cell_state_def rbind_eq_Inr split: if_splits)
  show ?thesis
  proof (cases state)
    case True
    show ?thesis
    proof (cases "v = live_state m")
      case True
      with \<open>state\<close> assms get show ?thesis by (simp add: set_cell_state_def settled_def)
    next
      case False
      with \<open>state\<close> assms get show ?thesis
        by (auto simp: set_cell_state_def rbind_eq_Inr)
    qed
  next
    case False
    note ns = False
    show ?thesis
    proof (cases "v = 0")
      case True
      with ns assms get show ?thesis by (simp add: set_cell_state_def settled_def)
    next
      case False
      with ns assms get show ?thesis
        by (cases "v = live_state m") (auto simp: set_cell_state_def rbind_eq_Inr Let_def)
    qed
  qed
qed

lemma set_cell_state_settles:
  assumes "set_cell_state state (r, c) m = Inr m'"
  shows "live_state m' = live_state m \<and> settled state m' (r, c)"
  using set_cell_state_cases [OF assms]
  by (auto simp: settled_def dest: get_after_set)

lemma set_cell_state_stays_settled:
  assumes "set_cell_state state (r', c') m = Inr m'" and "settled state m rc"
  shows "settled state m' rc"
  using set_cell_state_cases [OF assms(1)] assms(2)
  by (auto simp: settled_def dest: get_stable_under_set)

lemma settled_noop:
  assumes "settled state m rc"
  shows "set_cell_state state rc m = Inr m"
  using assms by (cases rc; cases state) (simp_all add: settled_def set_cell_state_def)

lemma all_settled_noop:
  assumes "list_all (settled state m) cells"
  shows "for_each (set_cell_state state) cells m = Inr m"
  using assms by (induction cells) (simp_all add: settled_noop)

lemma set_cells_state_settles:
  assumes "set_cells_state cells state m = Inr m'"
  shows "list_all (settled state m') cells"
proof -
  from assms have run: "for_each (set_cell_state state) cells m = Inr m'"
    by (simp add: set_cells_state_def)
  show ?thesis
  proof (rule for_each_inv [OF run, where P = "\<lambda>ys t. list_all (settled state t) ys"])
    show "list_all (settled state m) []" by simp
  next
    fix ys x zs t t'
    assume t: "list_all (settled state t) ys" and body: "set_cell_state state x t = Inr t'"
    obtain r c where x: "x = (r, c)" by (cases x)
    from set_cell_state_settles [OF body [unfolded x]]
      set_cell_state_stays_settled [OF body [unfolded x]] t
    show "list_all (settled state t') (ys @ [x])" by (simp add: x list_all_iff)
  qed
qed

lemma set_cells_state_again:
  assumes "set_cells_state cells state m = Inr m'"
  shows "set_cells_state cells state m' = Inr m'"
  using all_settled_noop [OF set_cells_state_settles [OF assms]]
  by (simp add: set_cells_state_def)

text \<open>
  C8. On a rectangular grid and for coordinates inside it, \<open>set_cells_state\<close> returns,
  and applying it again with the same arguments to the result returns the result
  unchanged: the same grid and the same population.
\<close>

theorem set_cells_state_idempotent:
  assumes "well_formed m" and "list_all (in_grid m) cells"
  shows "\<exists>m'. set_cells_state cells state m = Inr m'
           \<and> set_cells_state cells state m' = Inr m'"
  using set_cells_state_total [OF assms] set_cells_state_again by blast

theorem set_cells_state_idempotent_witness:
  "well_formed (Model_init 2 2 16 False False)
   \<and> list_all (in_grid (Model_init 2 2 16 False False)) [(1, 1), (0, 1), (1, 1)]
   \<and> (\<exists>m'. set_cells_state [(1, 1), (0, 1), (1, 1)] True (Model_init 2 2 16 False False) = Inr m'
         \<and> set_cells_state [(1, 1), (0, 1), (1, 1)] True m' = Inr m'
         \<and> population m' = 2)"
proof -
  let ?m = "Model_init 2 2 16 False False"
  let ?cs = "[(1, 1), (0, 1), (1, 1)] :: (int \<times> int) list"
  have wf: "well_formed ?m" by code_simp
  have rc: "list_all (in_grid ?m) ?cs" by code_simp
  from set_cells_state_idempotent [OF wf rc, of True] obtain m' where
    once: "set_cells_state ?cs True ?m = Inr m'" and twice: "set_cells_state ?cs True m' = Inr m'"
    by blast
  have "set_cells_state ?cs True ?m
        = Inr \<lparr>num_rows = 2, num_cols = 2, live_state = 16, wrap = False, trace = False,
             cell_states = [[0, 16], [0, 16]], population = 2, total_cells = 4\<rparr>"
    by code_simp
  with once have "m' = \<lparr>num_rows = 2, num_cols = 2, live_state = 16, wrap = False, trace = False,
             cell_states = [[0, 16], [0, 16]], population = 2, total_cells = 4\<rparr>"
    by simp
  then have "population m' = 2" by simp
  with wf rc once twice show ?thesis by blast
qed

section \<open>Resizing a rectangular grid\<close>

lemma well_formed_rect:
  "well_formed m \<longleftrightarrow>
     0 \<le> num_rows m \<and> 0 \<le> num_cols m
     \<and> rect (nat (num_rows m)) (nat (num_cols m)) (cell_states m)"
  by (auto simp: well_formed_def rect_def list_all_iff)

lemma rows_phase_rect:
  assumes g: "rect (nat R) (nat C) (cell_states m)" and R: "0 \<le> R" and nr: "0 \<le> nr"
  shows "\<exists>m2. adjust_rows R C nr m = Inr m2 \<and> frame m m2
           \<and> cell_states m2
               = take (nat nr) (cell_states m) @ replicate (nat nr - nat R) (zeros C)"
proof -
  let ?g = "cell_states m"
  have len: "length ?g = nat R" and rows: "\<And>i. i < nat R \<Longrightarrow> length (?g ! i) = nat C"
    using g by (simp_all add: rect_def list_all_length)
  consider (grow) "nr > R" | (shrink) "nr < R" | (same) "nr = R" by linarith
  then show ?thesis
  proof cases
    case grow
    then have "nat nr - nat R = nat (nr - R)" using R by linarith
    then show ?thesis using grow len by (simp add: adjust_rows_eq [OF nr])
  next
    case shrink
    have "list_all (cell_ok ?g) (List.product (rev [nat nr..<nat R]) [0..<nat C])"
      using len rows by (auto simp: list_all_iff cell_ok_def)
    then show ?thesis using shrink by (simp add: adjust_rows_eq [OF nr] frame_def)
  next
    case same
    then show ?thesis using len by (simp add: adjust_rows_def)
  qed
qed

lemma on_all_rows: "length g = n \<Longrightarrow> on_rows {0..<n} f g = map f g"
  by (auto simp: on_rows_def intro!: nth_equalityI)

lemma cols_phase_rect:
  assumes g: "rect (nat nr) (nat C) (cell_states m)" and C: "0 \<le> C" and nc: "0 \<le> nc"
  shows "\<exists>m3. adjust_cols C nr nc m = Inr m3 \<and> frame m m3
           \<and> cell_states m3 = map (\<lambda>r. take (nat nc) r @ zeros (nc - C)) (cell_states m)"
proof -
  let ?g = "cell_states m"
  have len: "length ?g = nat nr" and rows: "\<And>r. r \<in> set ?g \<Longrightarrow> length r = nat C"
    using g by (simp_all add: rect_def list_all_iff)
  have valid: "list_all (\<lambda>i. i < length ?g \<and> nat C \<le> length (?g ! i)) [0..<nat nr]"
    using len rows by (simp add: list_all_iff)
  then have valid': "list_all (\<lambda>i. i < length ?g) [0..<nat nr]"
    by (simp add: list_all_iff)
  consider (grow) "nc > C" | (shrink) "nc < C" | (same) "nc = C" by linarith
  then show ?thesis
  proof cases
    case grow
    then have "map (\<lambda>r. take (nat nc) r @ zeros (nc - C)) ?g = map (\<lambda>r. r @ zeros (nc - C)) ?g"
      using rows by (intro map_cong) simp_all
    then show ?thesis using grow valid'
      by (simp add: adjust_cols_eq [OF nc] on_all_rows [OF len])
  next
    case shrink
    then have "map (\<lambda>r. take (nat nc) r @ zeros (nc - C)) ?g = map (take (nat nc)) ?g"
      by (simp add: zeros_def)
    then show ?thesis using shrink valid
      by (simp add: adjust_cols_eq [OF nc] on_all_rows [OF len] frame_def)
  next
    case same
    then have "map (\<lambda>r. take (nat nc) r @ zeros (nc - C)) ?g = ?g"
      using rows by (simp add: zeros_def map_idI)
    then show ?thesis using same by (simp add: adjust_cols_def)
  qed
qed

lemma length_zeros [simp]: "length (zeros n) = nat n"
  by (simp add: zeros_def)

lemma nth_zeros [simp]: "i < nat n \<Longrightarrow> zeros n ! i = 0"
  by (simp add: zeros_def)

lemma resized_grid:
  assumes g: "rect (nat R) (nat C) g" and R: "0 \<le> R" and C: "0 \<le> C"
    and m: "cell_states m = g" "num_rows m = R" "num_cols m = C"
  shows "map (\<lambda>r. take (nat nc) r @ zeros (nc - C))
           (take (nat nr) g @ replicate (nat nr - nat R) (zeros C))
         = resized nr nc m"
proof -
  define g2 where "g2 = take (nat nr) g @ replicate (nat nr - nat R) (zeros C)"
  have len: "length g = nat R" and rows: "\<And>i. i < nat R \<Longrightarrow> length (g ! i) = nat C"
    using g by (simp_all add: rect_def list_all_length)
  have len2: "length g2 = nat nr" using len by (simp add: g2_def)
  have row2: "g2 ! i = (if i < nat R then g ! i else zeros C)" if "i < nat nr" for i
    using that len by (simp add: g2_def nth_append)
  have lrow: "length (g2 ! i) = nat C" if "i < nat nr" for i
    using that rows by (simp add: row2)
  have width: "length (take (nat nc) (g2 ! i) @ zeros (nc - C)) = nat nc" if "i < nat nr" for i
    using lrow [OF that] C by simp
  have cell: "(take (nat nc) (g2 ! i) @ zeros (nc - C)) ! j
              = (if i < nat R \<and> j < nat C then g ! i ! j else 0)"
    if "i < nat nr" "j < nat nc" for i j
  proof (cases "j < nat C")
    case True
    then have "(take (nat nc) (g2 ! i) @ zeros (nc - C)) ! j = g2 ! i ! j"
      using that lrow [OF that(1)] by (simp add: nth_append)
    then show ?thesis using True that by (simp add: row2)
  next
    case False
    then have "(take (nat nc) (g2 ! i) @ zeros (nc - C)) ! j = zeros (nc - C) ! (j - nat C)"
      using that lrow [OF that(1)] by (simp add: nth_append)
    moreover have "j - nat C < nat (nc - C)" using False that C by linarith
    ultimately show ?thesis using False by simp
  qed
  have "map (\<lambda>r. take (nat nc) r @ zeros (nc - C)) g2 = resized nr nc m"
  proof (rule nth_equalityI)
    show "length (map (\<lambda>r. take (nat nc) r @ zeros (nc - C)) g2) = length (resized nr nc m)"
      using len2 by (simp add: resized_def)
  next
    fix i assume "i < length (map (\<lambda>r. take (nat nc) r @ zeros (nc - C)) g2)"
    then have i: "i < nat nr" using len2 by simp
    have row: "map (\<lambda>r. take (nat nc) r @ zeros (nc - C)) g2 ! i
               = take (nat nc) (g2 ! i) @ zeros (nc - C)"
      using i len2 by simp
    show "map (\<lambda>r. take (nat nc) r @ zeros (nc - C)) g2 ! i = resized nr nc m ! i"
      unfolding row
    proof (rule nth_equalityI)
      show "length (take (nat nc) (g2 ! i) @ zeros (nc - C)) = length (resized nr nc m ! i)"
        using i width [OF i] by (simp add: resized_def)
    next
      fix j assume "j < length (take (nat nc) (g2 ! i) @ zeros (nc - C))"
      then have j: "j < nat nc" using width [OF i] by simp
      show "(take (nat nc) (g2 ! i) @ zeros (nc - C)) ! j = resized nr nc m ! i ! j"
        using i j R C m by (simp add: cell resized_def zless_nat_eq_int_zless)
    qed
  qed
  then show ?thesis by (simp only: g2_def)
qed

lemma adjust_grid_size_rect:
  assumes wf: "well_formed m" and nr: "0 \<le> nr" and nc: "0 \<le> nc"
  shows "\<exists>m'. adjust_grid_size nr nc m = Inr m' \<and> cell_states m' = resized nr nc m
           \<and> num_rows m' = nr \<and> num_cols m' = nc \<and> total_cells m' = nr * nc
           \<and> live_state m' = live_state m \<and> wrap m' = wrap m \<and> trace m' = trace m"
proof -
  let ?R = "num_rows m"
  let ?C = "num_cols m"
  let ?g = "cell_states m"
  let ?m1 = "m\<lparr>num_rows := nr, num_cols := nc\<rparr>"
  from wf have R: "0 \<le> ?R" and C: "0 \<le> ?C" and g: "rect (nat ?R) (nat ?C) ?g"
    by (simp_all add: well_formed_rect)
  have g1: "rect (nat ?R) (nat ?C) (cell_states ?m1)" using g by simp
  from rows_phase_rect [OF g1 R nr] obtain m2 where
    r: "adjust_rows ?R ?C nr ?m1 = Inr m2" and f2: "frame ?m1 m2"
    and g2: "cell_states m2 = take (nat nr) ?g @ replicate (nat nr - nat ?R) (zeros ?C)"
    by auto
  have "length ?g = nat ?R" "\<And>row. row \<in> set ?g \<Longrightarrow> length row = nat ?C"
    using g by (simp_all add: rect_def list_all_iff)
  then have "rect (nat nr) (nat ?C) (cell_states m2)"
    unfolding g2 rect_def list_all_iff by (auto dest: in_set_takeD)
  from cols_phase_rect [OF this C nc] obtain m3 where
    c: "adjust_cols ?C nr nc m2 = Inr m3" and f3: "frame m2 m3"
    and g3: "cell_states m3 = map (\<lambda>r. take (nat nc) r @ zeros (nc - ?C)) (cell_states m2)"
    by auto
  have grid: "cell_states m3 = resized nr nc m"
    unfolding g3 g2 by (rule resized_grid [OF g R C]) simp_all
  have run: "adjust_grid_size nr nc m = Inr (m3\<lparr>total_cells := num_rows m3 * num_cols m3\<rparr>)"
    by (simp add: adjust_grid_size_def Let_def r c)
  show ?thesis using f2 f3 grid unfolding run by (simp add: frame_def)
qed

lemma adjust_grid_size_difference:
  assumes L: "live_state m \<noteq> 0"
    and out: "dead_outside (num_rows m) (num_cols m) (cell_states m)"
    and nr: "0 \<le> nr" and nc: "0 \<le> nc"
    and run: "adjust_grid_size nr nc m = Inr m'"
  shows "population m' - int (card (live_at (live_state m) (cell_states m')))
         = population m - int (card (live_at (live_state m) (cell_states m)))"
proof -
  let ?m1 = "m\<lparr>num_rows := nr, num_cols := nc\<rparr>"
  from run obtain m2 m3 where
    r: "adjust_rows (num_rows m) (num_cols m) nr ?m1 = Inr m2"
    and c: "adjust_cols (num_cols m) nr nc m2 = Inr m3"
    and m': "m' = m3\<lparr>total_cells := num_rows m3 * num_cols m3\<rparr>"
    by (auto simp: adjust_grid_size_def Let_def rbind_eq_Inr)
  from rows_phase [OF _ _ nr r] L out
  have 2: "frame ?m1 m2" "dead_outside nr (num_cols m) (cell_states m2)"
    "population m2 - int (card (live_at (live_state m) (cell_states m2)))
     = population m - int (card (live_at (live_state m) (cell_states m)))"
    by simp_all
  have L2: "live_state m2 = live_state m" using 2(1) by (simp add: frame_def)
  from cols_phase [OF _ _ nc c] L 2 L2
  have "population m3 - int (card (live_at (live_state m) (cell_states m3)))
        = population m2 - int (card (live_at (live_state m) (cell_states m2)))"
    by simp
  with 2(3) show ?thesis by (simp add: m')
qed

lemma well_formed_dead_outside:
  assumes "well_formed m"
  shows "dead_outside (num_rows m) (num_cols m) (cell_states m)"
  using assms unfolding well_formed_def dead_outside_def list_all_length
  by auto

lemma well_formed_resized:
  assumes "0 \<le> nr" "0 \<le> nc"
  shows "well_formed (m'\<lparr>num_rows := nr, num_cols := nc, cell_states := resized nr nc m\<rparr>)"
  using assms by (simp add: well_formed_def resized_def list_all_length)

lemma well_formed_valid:
  assumes wf: "well_formed m"
  shows "i < length (cell_states m) \<and> j < length (cell_states m ! i)
         \<longleftrightarrow> int i < num_rows m \<and> int j < num_cols m"
proof (cases "i < length (cell_states m)")
  case True
  with wf have "int (length (cell_states m ! i)) = num_cols m" "int i < num_rows m"
    by (simp_all add: well_formed_def list_all_length)
  then show ?thesis using True by auto
next
  case False
  with wf have "\<not> int i < num_rows m" by (simp add: well_formed_def)
  then show ?thesis using False by simp
qed

lemma live_at_well_formed:
  assumes wf: "well_formed m"
  shows "(i, j) \<in> live_at L (cell_states m)
         \<longleftrightarrow> int i < num_rows m \<and> int j < num_cols m \<and> cell_states m ! i ! j = L"
  using well_formed_valid [OF wf, of i j] by (auto simp: live_at_def)

lemma nth_resized:
  assumes "int i < nr" "int j < nc"
  shows "i < length (resized nr nc m)" "j < length (resized nr nc m ! i)"
    "resized nr nc m ! i ! j
     = (if int i < num_rows m \<and> int j < num_cols m then cell_states m ! i ! j else 0)"
proof -
  have i: "i < nat nr" and j: "j < nat nc" using assms by linarith+
  show "i < length (resized nr nc m)" using i by (simp add: resized_def)
  show "j < length (resized nr nc m ! i)" using i j by (simp add: resized_def)
  show "resized nr nc m ! i ! j
     = (if int i < num_rows m \<and> int j < num_cols m then cell_states m ! i ! j else 0)"
    using i j by (simp add: resized_def)
qed

lemma live_at_resized_iff:
  assumes L: "L \<noteq> 0"
  shows "(i, j) \<in> live_at L (resized nr nc m)
         \<longleftrightarrow> int i < nr \<and> int j < nc \<and> int i < num_rows m \<and> int j < num_cols m
             \<and> cell_states m ! i ! j = L"
proof (cases "int i < nr \<and> int j < nc")
  case True
  then show ?thesis using nth_resized [of i nr j nc m] L by (auto simp: live_at_def)
next
  case False
  have "\<not> (i < length (resized nr nc m) \<and> j < length (resized nr nc m ! i))"
  proof
    assume a: "i < length (resized nr nc m) \<and> j < length (resized nr nc m ! i)"
    then have i: "i < nat nr" by (simp add: resized_def)
    with a have "j < nat nc" by (simp add: resized_def)
    with i False show False by linarith
  qed
  then show ?thesis using False by (auto simp: live_at_def)
qed

lemma live_at_resized:
  assumes wf: "well_formed m" and L: "live_state m \<noteq> 0"
  shows "live_at (live_state m) (resized nr nc m)
         = live_at (live_state m) (cell_states m) - {p. \<not> (int (fst p) < nr \<and> int (snd p) < nc)}"
proof (rule set_eqI)
  fix p :: "nat \<times> nat"
  obtain i j where p: "p = (i, j)" by (cases p)
  show "p \<in> live_at (live_state m) (resized nr nc m)
        \<longleftrightarrow> p \<in> live_at (live_state m) (cell_states m)
                  - {p. \<not> (int (fst p) < nr \<and> int (snd p) < nc)}"
    unfolding p using live_at_resized_iff [OF L, of i j nr nc] live_at_well_formed [OF wf, of i j]
    by auto
qed

lemma dropped_live_card:
  assumes wf: "well_formed m"
  shows "dropped_live m nr nc
         = int (card (live_at (live_state m) (cell_states m)
                      \<inter> {p. \<not> (int (fst p) < nr \<and> int (snd p) < nc)}))"
proof -
  let ?xs = "List.product [0..<nat (num_rows m)] [0..<nat (num_cols m)]"
  have "{p. live_cell m p \<and> \<not> (int (fst p) < nr \<and> int (snd p) < nc)} \<inter> set ?xs
        = live_at (live_state m) (cell_states m) \<inter> {p. \<not> (int (fst p) < nr \<and> int (snd p) < nc)}"
  proof (rule set_eqI)
    fix p :: "nat \<times> nat"
    obtain i j where p: "p = (i, j)" by (cases p)
    have "p \<in> set ?xs \<longleftrightarrow> int i < num_rows m \<and> int j < num_cols m"
      unfolding p by (rule in_product_iff)
    then show "p \<in> {p. live_cell m p \<and> \<not> (int (fst p) < nr \<and> int (snd p) < nc)} \<inter> set ?xs
        \<longleftrightarrow> p \<in> live_at (live_state m) (cell_states m)
                   \<inter> {p. \<not> (int (fst p) < nr \<and> int (snd p) < nc)}"
      using live_at_well_formed [OF wf, of i j] by (auto simp: p live_cell_def)
  qed
  moreover have "distinct ?xs" by (simp add: distinct_product)
  ultimately show ?thesis
    unfolding dropped_live_def by (simp add: distinct_length_filter)
qed

text \<open>
  C6. On a rectangular grid with \<open>live_state\<close> not 0 and for non-negative new
  dimensions, \<open>adjust_grid_size\<close> returns a rectangular grid of the new dimensions in
  which every cell whose coordinates were valid before keeps its value and every other
  cell is 0; \<open>total_cells\<close> is the product of the new dimensions; \<open>population\<close> has gone
  down by the number of cells of the old grid that held \<open>live_state\<close> and lie outside
  the new dimensions, so that it is still the number of live cells if it was before.
  With only (3,3) alive on a 4 by 4 grid, shrinking to 2 by 2 gives an all-dead grid with
  population 0, and growing back to 4 by 4 gives an all-dead grid.
\<close>

theorem adjust_grid_size_resizes:
  assumes "well_formed m" and "0 \<le> nr" and "0 \<le> nc" and "live_state m \<noteq> 0"
  shows "(\<exists>m'. adjust_grid_size nr nc m = Inr m' \<and> well_formed m'
            \<and> num_rows m' = nr \<and> num_cols m' = nc \<and> total_cells m' = nr * nc
            \<and> (\<forall>i < nat nr. \<forall>j < nat nc.
                  cell_states m' ! i ! j
                  = (if int i < num_rows m \<and> int j < num_cols m then cell_states m ! i ! j
                     else 0))
            \<and> population m' = population m - dropped_live m nr nc
            \<and> (population_ok m \<longrightarrow> population_ok m'))
         \<and> set_cells_state [(3, 3)] True (all_dead 4) = Inr corner_alive
         \<and> adjust_grid_size 2 2 corner_alive = Inr (all_dead 2)
         \<and> adjust_grid_size 4 4 (all_dead 2) = Inr (all_dead 4)"
proof -
  let ?L = "live_state m"
  let ?A = "live_at ?L (cell_states m)"
  let ?B = "{p :: nat \<times> nat. \<not> (int (fst p) < nr \<and> int (snd p) < nc)}"
  note wf = assms(1) and nr = assms(2) and nc = assms(3) and L = assms(4)
  from adjust_grid_size_rect [OF wf nr nc] obtain m' where
    run: "adjust_grid_size nr nc m = Inr m'" and grid: "cell_states m' = resized nr nc m"
    and dims: "num_rows m' = nr" "num_cols m' = nc" "total_cells m' = nr * nc"
    and L': "live_state m' = ?L"
    by blast
  have wf': "well_formed m'"
    using nr nc by (simp add: well_formed_def grid dims resized_def list_all_length)
  have cells: "\<forall>i < nat nr. \<forall>j < nat nc.
      cell_states m' ! i ! j
      = (if int i < num_rows m \<and> int j < num_cols m then cell_states m ! i ! j else 0)"
    by (simp add: grid resized_def)
  have "population m' - int (card (live_at ?L (cell_states m'))) = population m - int (card ?A)"
    by (rule adjust_grid_size_difference [OF L well_formed_dead_outside [OF wf] nr nc run])
  moreover have "int (card (live_at ?L (cell_states m'))) = int (card ?A) - int (card (?A \<inter> ?B))"
    unfolding grid live_at_resized [OF wf L] by (rule card_diff_int) simp
  ultimately have diff: "population m' - int (card (live_at ?L (cell_states m')))
                         = population m - int (card ?A)"
    and pop: "population m' = population m - dropped_live m nr nc"
    by (simp_all add: dropped_live_card [OF wf])
  have ok: "population_ok m \<longrightarrow> population_ok m'"
    using diff by (simp add: population_ok_def count_live_card L')
  have ex1: "set_cells_state [(3, 3)] True (all_dead 4) = Inr corner_alive" by code_simp
  have ex2: "adjust_grid_size 2 2 corner_alive = Inr (all_dead 2)" by code_simp
  have ex3: "adjust_grid_size 4 4 (all_dead 2) = Inr (all_dead 4)" by code_simp
  from run wf' dims cells pop ok ex1 ex2 ex3 show ?thesis by blast
qed

theorem adjust_grid_size_resizes_witness:
  "well_formed corner_alive \<and> population_ok corner_alive
   \<and> (\<exists>m'. adjust_grid_size 2 2 corner_alive = Inr m' \<and> population m' = 0
         \<and> population_ok m' \<and> total_cells m' = 4 \<and> cell_states m' ! 1 ! 1 = 0)"
proof -
  have wf: "well_formed corner_alive" by code_simp
  have ok: "population_ok corner_alive" by code_simp
  have L: "live_state corner_alive \<noteq> 0" by code_simp
  have d: "dropped_live corner_alive 2 2 = 1" by code_simp
  from adjust_grid_size_resizes [OF wf _ _ L, of 2 2] obtain m' where
    run: "adjust_grid_size 2 2 corner_alive = Inr m'"
    and total: "total_cells m' = 2 * 2"
    and cells: "\<forall>i < nat 2. \<forall>j < nat 2.
                  cell_states m' ! i ! j
                  = (if int i < num_rows corner_alive \<and> int j < num_cols corner_alive
                     then cell_states corner_alive ! i ! j else 0)"
    and pop: "population m' = population corner_alive - dropped_live corner_alive 2 2"
    and keep: "population_ok corner_alive \<longrightarrow> population_ok m'"
    by auto
  have "population m' = 0" using pop d by (simp add: corner_alive_def)
  moreover have "cell_states m' ! 1 ! 1 = 0" using cells by (simp add: corner_alive_def)
  ultimately show ?thesis using wf ok run keep total by auto
qed

section \<open>Resizing to nothing\<close>

lemma adjust_rows_to_none:
  assumes wf: "well_formed m" and ok: "population_ok m"
  shows "adjust_rows (num_rows m) (num_cols m) 0 (m\<lparr>num_rows := 0, num_cols := 0\<rparr>)
         = Inr (m\<lparr>num_rows := 0, num_cols := 0, population := 0, cell_states := []\<rparr>)"
proof -
  let ?m1 = "m\<lparr>num_rows := 0, num_cols := 0\<rparr>"
  let ?g = "cell_states m"
  let ?ps = "List.product (rev [nat 0..<nat (num_rows m)]) [0..<nat (num_cols m)]"
  from wf have R: "0 \<le> num_rows m" and len: "int (length ?g) = num_rows m"
    by (simp_all add: well_formed_def)
  show ?thesis
  proof (cases "0 < num_rows m")
    case True
    have valid: "list_all (cell_ok (cell_states ?m1)) ?ps"
      using well_formed_valid [OF wf] by (auto simp: list_all_iff cell_ok_def)
    have dist: "distinct ?ps" by (simp add: distinct_product)
    have "live_at (live_state m) ?g \<subseteq> set ?ps"
    proof
      fix p assume p: "p \<in> live_at (live_state m) ?g"
      obtain i j where ij: "p = (i, j)" by (cases p)
      from p live_at_well_formed [OF wf, of i j] show "p \<in> set ?ps"
        unfolding ij by auto
    qed
    then have "live_at (live_state ?m1) (cell_states ?m1) \<inter> set ?ps = live_at (live_state m) ?g"
      by auto
    then have "int (length (filter (live_cell ?m1) ?ps)) = count_live m"
      using scanned_card [OF dist valid] by (simp add: count_live_card)
    then have "population ?m1 - int (length (filter (live_cell ?m1) ?ps)) = 0"
      using ok by (simp add: population_ok_def)
    then show ?thesis using True valid
      by (simp add: adjust_rows_eq [of 0])
  next
    case False
    with R len have "length ?g = 0" by linarith
    then have g: "?g = []" by simp
    then have "population m = 0" using ok by (simp add: population_ok_def count_live_def)
    then have "?m1 = m\<lparr>num_rows := 0, num_cols := 0, population := 0, cell_states := []\<rparr>"
      using g by simp
    then show ?thesis using False R by (simp add: adjust_rows_def)
  qed
qed

lemma adjust_cols_of_none:
  assumes "cell_states m = []" and "0 \<le> oc"
  shows "adjust_cols oc 0 0 m = Inr m"
  using assms by (simp add: adjust_cols_eq [of 0])

text \<open>
  C9. From a rectangular grid whose population is the number of its live cells,
  \<open>adjust_grid_size(0, 0)\<close> returns the model with no rows, no columns, an empty grid,
  \<open>total_cells\<close> 0 and population 0; on that model \<open>step\<close>, \<open>clear\<close> and \<open>randomize\<close>
  return and change nothing. None of the four raises, so none divides by zero.
\<close>

theorem adjust_to_empty:
  assumes "well_formed m" and "population_ok m"
  shows "\<exists>e. adjust_grid_size 0 0 m = Inr e
           \<and> num_rows e = 0 \<and> num_cols e = 0 \<and> total_cells e = 0 \<and> cell_states e = []
           \<and> population e = 0
           \<and> step e = Inr e \<and> clear e = Inr e \<and> randomize bits e = Inr e"
proof -
  let ?m2 = "m\<lparr>num_rows := 0, num_cols := 0, population := 0, cell_states := []\<rparr>"
  have C: "0 \<le> num_cols m" using assms(1) by (simp add: well_formed_def)
  have cols: "adjust_cols (num_cols m) 0 0 ?m2 = Inr ?m2"
    by (rule adjust_cols_of_none [OF _ C]) simp
  have run: "adjust_grid_size 0 0 m = Inr (emptied m)"
    by (simp add: adjust_grid_size_def Let_def adjust_rows_to_none [OF assms] cols emptied_def)
  have "step (emptied m) = Inr (emptied m)"
    by (simp add: step_def emptied_def py_range_def)
  moreover have "clear (emptied m) = Inr (emptied m)"
    by (simp add: clear_def emptied_def py_range_def)
  moreover have "randomize bits (emptied m) = Inr (emptied m)"
    by (simp add: randomize_def emptied_def py_range_def)
  ultimately show ?thesis using run by (simp add: emptied_def)
qed

theorem adjust_to_empty_witness:
  "well_formed corner_alive \<and> population_ok corner_alive
   \<and> (\<exists>e. adjust_grid_size 0 0 corner_alive = Inr e \<and> cell_states e = [] \<and> population e = 0
        \<and> step e = Inr e \<and> clear e = Inr e \<and> randomize (\<lambda>k. True) e = Inr e)"
proof -
  have wf: "well_formed corner_alive" by code_simp
  have ok: "population_ok corner_alive" by code_simp
  from adjust_to_empty [OF wf ok, of "\<lambda>k. True"] wf ok show ?thesis by blast
qed

section \<open>Summary for rectangular grids\<close>

text \<open>On a rectangular grid every operation returns, and returns a rectangular grid.\<close>

lemma operations_total:
  assumes wf: "well_formed m"
  shows "\<exists>m'. step m = Inr m' \<and> well_formed m'"
    and "\<exists>m'. randomize bits m = Inr m' \<and> well_formed m'"
    and "\<exists>m'. clear m = Inr m' \<and> well_formed m'"
    and "list_all (in_grid m) cells
         \<Longrightarrow> \<exists>m'. set_cells_state cells state m = Inr m' \<and> well_formed m'"
    and "well_formed (toggle_wrap m)"
    and "\<exists>m'. toggle_trace m = Inr m' \<and> well_formed m'"
    and "0 \<le> nr \<Longrightarrow> 0 \<le> nc \<Longrightarrow> \<exists>m'. adjust_grid_size nr nc m = Inr m' \<and> well_formed m'"
proof -
  show "\<exists>m'. step m = Inr m' \<and> well_formed m'" using step_total [OF wf] by blast
  show "\<exists>m'. randomize bits m = Inr m' \<and> well_formed m'" using randomize_total [OF wf] by blast
  show "\<exists>m'. clear m = Inr m' \<and> well_formed m'" using clear_total [OF wf] by blast
  show "list_all (in_grid m) cells
        \<Longrightarrow> \<exists>m'. set_cells_state cells state m = Inr m' \<and> well_formed m'"
    using set_cells_state_total [OF wf] by blast
  show "well_formed (toggle_wrap m)" using wf by (simp add: well_formed_def toggle_wrap_def)
  show "\<exists>m'. toggle_trace m = Inr m' \<and> well_formed m'" by (rule toggle_trace_total [OF wf])
  show "\<exists>m'. adjust_grid_size nr nc m = Inr m' \<and> well_formed m'" if "0 \<le> nr" "0 \<le> nc"
  proof -
    from adjust_grid_size_rect [OF wf that] obtain m' where
      run: "adjust_grid_size nr nc m = Inr m'" and grid: "cell_states m' = resized nr nc m"
      and dims: "num_rows m' = nr" "num_cols m' = nc"
      by blast
    have "well_formed m'"
      using that by (simp add: well_formed_def grid dims resized_def list_all_length)
    with run show ?thesis by blast
  qed
qed

text \<open>So the rectangular reachable states are closed under the operations, none of which
  fails there; a model constructed with non-negative dimensions is one of them.\<close>

lemma reachable_progress:
  assumes r: "reachable m" and wf: "well_formed m"
  shows "\<exists>m'. step m = Inr m' \<and> reachable m' \<and> well_formed m'"
    and "\<exists>m'. randomize bits m = Inr m' \<and> reachable m' \<and> well_formed m'"
    and "\<exists>m'. clear m = Inr m' \<and> reachable m' \<and> well_formed m'"
    and "list_all (in_grid m) cells
         \<Longrightarrow> \<exists>m'. set_cells_state cells state m = Inr m' \<and> reachable m' \<and> well_formed m'"
    and "reachable (toggle_wrap m) \<and> well_formed (toggle_wrap m)"
    and "\<exists>m'. toggle_trace m = Inr m' \<and> reachable m' \<and> well_formed m'"
    and "0 \<le> nr \<Longrightarrow> 0 \<le> nc
         \<Longrightarrow> \<exists>m'. adjust_grid_size nr nc m = Inr m' \<and> reachable m' \<and> well_formed m'"
proof -
  note total = operations_total [OF wf]
  show "\<exists>m'. step m = Inr m' \<and> reachable m' \<and> well_formed m'"
    using total(1) r by (blast intro: reachable.after_step)
  show "\<exists>m'. randomize bits m = Inr m' \<and> reachable m' \<and> well_formed m'"
    using total(2) r by (blast intro: reachable.after_randomize)
  show "\<exists>m'. clear m = Inr m' \<and> reachable m' \<and> well_formed m'"
    using total(3) r by (blast intro: reachable.after_clear)
  show "\<exists>m'. set_cells_state cells state m = Inr m' \<and> reachable m' \<and> well_formed m'"
    if "list_all (in_grid m) cells"
    using total(4) [OF that] r that by (blast intro: reachable.after_set_cells_state)
  show "reachable (toggle_wrap m) \<and> well_formed (toggle_wrap m)"
    using total(5) r by (blast intro: reachable.after_toggle_wrap)
  show "\<exists>m'. toggle_trace m = Inr m' \<and> reachable m' \<and> well_formed m'"
    using total(6) r by (blast intro: reachable.after_toggle_trace)
  show "\<exists>m'. adjust_grid_size nr nc m = Inr m' \<and> reachable m' \<and> well_formed m'"
    if "0 \<le> nr" "0 \<le> nc"
    using total(7) [OF that] r that by (blast intro: reachable.after_adjust_grid_size)
qed

lemma reachable_constructed:
  assumes "1 < live" "0 \<le> n_rows" "0 \<le> n_cols"
  shows "reachable (Model_init n_rows n_cols live w t)
         \<and> well_formed (Model_init n_rows n_cols live w t)"
  using assms by (simp add: reachable.construct Model_init_well_formed)

end
